theory Spec2Isabelle
  imports Complex_Main "HOL-Library.Sublist" "HOL-Library.Multiset"
begin

section \<open>JavaScript numbers and option coercion\<close>

text \<open>
  The two ceilings of \<^verbatim>\<open>SESTransport\<close> are JavaScript numbers obtained by
  \<^verbatim>\<open>Number(option) || Infinity\<close>. A JavaScript number is NaN, one of the two
  infinities, or a finite double; every finite double is a rational, and the code only ever
  compares a ceiling with a small integer counter, so a finite value is kept as a rational
  (both zeros are \<open>Fin 0\<close>).
\<close>

datatype jsnum = NaN | NegInf | Fin rat | PosInf

text \<open>Truthiness of a number: NaN and zero are falsy.\<close>

fun truthy :: "jsnum \<Rightarrow> bool" where
  "truthy NaN = False"
| "truthy (Fin r) = (r \<noteq> 0)"
| "truthy NegInf = True"
| "truthy PosInf = True"

text \<open>The expression \<^verbatim>\<open>x || Infinity\<close> on a number \<open>x\<close>.\<close>

definition or_Infinity :: "jsnum \<Rightarrow> jsnum" where
  "or_Infinity x = (if truthy x then x else PosInf)"

text \<open>\<^verbatim>\<open>c >= m\<close> for an integer \<open>c\<close> and a number \<open>m\<close>.\<close>

fun ge_num :: "int \<Rightarrow> jsnum \<Rightarrow> bool" where
  "ge_num c NaN = False"
| "ge_num c NegInf = True"
| "ge_num c (Fin r) = (r \<le> of_int c)"
| "ge_num c PosInf = False"

text \<open>\<^verbatim>\<open>n < m\<close> for an integer \<open>n\<close> and a number \<open>m\<close>.\<close>

fun lt_num :: "int \<Rightarrow> jsnum \<Rightarrow> bool" where
  "lt_num n NaN = False"
| "lt_num n NegInf = False"
| "lt_num n (Fin r) = (of_int n < r)"
| "lt_num n PosInf = True"

text \<open>\<open>n \<le> m\<close> for an integer \<open>n\<close> and a number \<open>m\<close> (used in statements only).\<close>

fun le_num :: "int \<Rightarrow> jsnum \<Rightarrow> bool" where
  "le_num n NaN = False"
| "le_num n NegInf = False"
| "le_num n (Fin r) = (of_int n \<le> r)"
| "le_num n PosInf = True"

text \<open>
  The values an option can hold. Strings and objects are converted by the language's own
  \<^verbatim>\<open>ToNumber\<close>, which is no code of this repository: it is the parameter
  \<open>conv\<close>, returning \<open>Inl TypeError\<close> where the conversion throws.
\<close>

datatype error = TypeError

datatype 'a jsval = JUndefined | JNull | JBool bool | JNumber jsnum | JOther 'a

fun Number :: "('a \<Rightarrow> error + jsnum) \<Rightarrow> 'a jsval \<Rightarrow> error + jsnum" where
  "Number conv JUndefined = Inr NaN"
| "Number conv JNull = Inr (Fin 0)"
| "Number conv (JBool b) = Inr (Fin (if b then 1 else 0))"
| "Number conv (JNumber n) = Inr n"
| "Number conv (JOther x) = conv x"

section \<open>The transport\<close>

text \<open>
  A job is what \<^verbatim>\<open>send(mail, callback)\<close> receives; both parts are opaque to the
  dispatch code and are kept as identifiers.
\<close>

datatype job = Job (mail: nat) (callback: nat)

text \<open>
  The two closures that the code passes to \<^verbatim>\<open>_send\<close> as its callback: the one
  built in \<^verbatim>\<open>send\<close> (around \<^verbatim>\<open>callback\<close>) and the one built in
  \<^verbatim>\<open>_checkRatedQueue\<close> (around \<^verbatim>\<open>next.callback\<close>).
\<close>

datatype closure = Send_cb job | Queue_cb job

fun job_of :: "closure \<Rightarrow> job" where
  "job_of (Send_cb j) = j"
| "job_of (Queue_cb j) = j"

text \<open>
  What the collaborators of \<^verbatim>\<open>_send\<close> report for one message (the message
  stream fails, the remote call fails, or the remote call returns data), and the arguments
  \<^verbatim>\<open>_send\<close> then gives to its callback: \<^verbatim>\<open>callback(err)\<close> or
  \<^verbatim>\<open>callback(null, info)\<close>. Errors and response data are opaque identifiers.
\<close>

datatype outcome = ComposeError nat | SendError nat | Accepted nat

datatype args = Failure nat | Success nat

fun callback_args :: "outcome \<Rightarrow> args" where
  "callback_args (ComposeError err) = Failure err"
| "callback_args (SendError err) = Failure err"
| "callback_args (Accepted d) = Success d"

text \<open>
  The argument of \<^verbatim>\<open>setTimeout\<close>: a number of milliseconds, or NaN when the
  rate log is empty (\<^verbatim>\<open>undefined + 1001\<close>).
\<close>

datatype delay = NaN_ms | Ms int

text \<open>
  The effects of the dispatch code on its surroundings, in the order they happen:
  \<^verbatim>\<open>pending.push\<close>, a call of \<^verbatim>\<open>_send\<close> (with the time it records),
  \<^verbatim>\<open>setImmediate(() => callback(...args))\<close>, and \<^verbatim>\<open>setTimeout\<close>.
\<close>

datatype effect =
    Pushed job
  | Started nat closure int
  | Immediate nat args
  | Armed delay

text \<open>
  The fields of the class that the dispatch code reads and writes, then
  \<open>executing\<close> (the callbacks handed to \<^verbatim>\<open>_send\<close> that the executor has not
  called yet) and \<open>trace\<close> (the effects so far); no code path reads the last two.
  \<open>sendingRateTTL\<close> is \<open>Some d\<close> while a timer armed with argument \<open>d\<close> is
  outstanding.
\<close>

record transport =
  maxConnections :: jsnum
  connections :: int
  sendingRate :: jsnum
  sendingRateTTL :: "delay option"
  rateInterval :: int
  rateMessages :: "int list"
  pending :: "job list"
  executing :: "closure list"
  trace :: "effect list"

definition new_transport :: "jsnum \<Rightarrow> jsnum \<Rightarrow> transport" where
  "new_transport mc sr =
     \<lparr> maxConnections = mc, connections = 0, sendingRate = sr, sendingRateTTL = None,
       rateInterval = 1000, rateMessages = [], pending = [], executing = [], trace = [] \<rparr>"

record 'a options =
  opt_maxConnections :: "'a jsval"
  opt_sendingRate :: "'a jsval"

text \<open>
  \<^verbatim>\<open>options || {}\<close>: \<open>None\<close> is an omitted (or falsy) options object, and
  every field of \<^verbatim>\<open>{}\<close> is undefined.
\<close>

definition or_empty :: "'a options option \<Rightarrow> 'a options" where
  "or_empty opts =
     (case opts of
        None \<Rightarrow> \<lparr> opt_maxConnections = JUndefined, opt_sendingRate = JUndefined \<rparr>
      | Some opt \<Rightarrow> opt)"

text \<open>The constructor.\<close>

definition SESTransport ::
  "('a \<Rightarrow> error + jsnum) \<Rightarrow> 'a options option \<Rightarrow> error + transport" where
  "SESTransport conv opts =
     (let options = or_empty opts
      in case Number conv (opt_maxConnections options) of
           Inl e \<Rightarrow> Inl e
         | Inr mc \<Rightarrow>
             (case Number conv (opt_sendingRate options) of
                Inl e \<Rightarrow> Inl e
              | Inr sr \<Rightarrow> Inr (new_transport (or_Infinity mc) (or_Infinity sr))))"

subsection \<open>The rate check\<close>

text \<open>
  A method whose name starts with an underscore in the source has the prefix \<open>u_\<close>
  here: \<^verbatim>\<open>_checkSendingRate\<close> is \<open>u_checkSendingRate\<close>, and so on.
\<close>

text \<open>The loop of \<^verbatim>\<open>_checkSendingRate\<close> that counts \<^verbatim>\<open>remove\<close>.\<close>

fun count_remove :: "int \<Rightarrow> int list \<Rightarrow> nat" where
  "count_remove bound [] = 0"
| "count_remove bound (t # ts) = (if t > bound then 0 else Suc (count_remove bound ts))"

text \<open>
  \<^verbatim>\<open>_checkSendingRate\<close>, with the reading \<open>now\<close> of the clock: the result and
  the state it leaves.
\<close>

definition u_checkSendingRate :: "int \<Rightarrow> transport \<Rightarrow> bool \<times> transport" where
  "u_checkSendingRate now s =
     (let s1 = s\<lparr>sendingRateTTL := None\<rparr>;
          remove = count_remove (now - rateInterval s1) (rateMessages s1);
          s2 = (if remove \<noteq> 0 then s1\<lparr>rateMessages := drop remove (rateMessages s1)\<rparr> else s1)
      in if lt_num (int (length (rateMessages s2))) (sendingRate s2) then (True, s2)
         else
           (let delay = (case rateMessages s2 of
                           [] \<Rightarrow> NaN_ms
                         | t # _ \<Rightarrow> Ms (max (t + 1001) (now + 20)));
                arg = (case delay of NaN_ms \<Rightarrow> NaN_ms | Ms d \<Rightarrow> Ms (now - d))
            in (False, s2\<lparr>sendingRateTTL := Some arg, trace := trace s2 @ [Armed arg]\<rparr>)))"

subsection \<open>Admission and release\<close>

text \<open>
  The part of \<^verbatim>\<open>_send\<close> that runs inside the call: the counter, the rate log
  (with a second reading \<open>now\<close> of the clock) and the hand-over to the executor. The
  rest of \<^verbatim>\<open>_send\<close> runs on later turns and ends in one call of \<open>cb\<close>.
\<close>

definition u_send :: "nat \<Rightarrow> closure \<Rightarrow> int \<Rightarrow> transport \<Rightarrow> transport" where
  "u_send m cb now s =
     s\<lparr>connections := connections s + 1,
       rateMessages := rateMessages s @ [now],
       executing := executing s @ [cb],
       trace := trace s @ [Started m cb now]\<rparr>"

definition u_checkRatedQueue :: "int \<Rightarrow> int \<Rightarrow> transport \<Rightarrow> transport" where
  "u_checkRatedQueue now now' s =
     (if ge_num (connections s) (maxConnections s) then s
      else
        (case u_checkSendingRate now s of
           (False, s1) \<Rightarrow> s1
         | (True, s1) \<Rightarrow>
             (case pending s1 of
                [] \<Rightarrow> s1
              | next # rest \<Rightarrow> u_send (mail next) (Queue_cb next) now' (s1\<lparr>pending := rest\<rparr>))))"

definition u_sent :: "int \<Rightarrow> int \<Rightarrow> transport \<Rightarrow> transport" where
  "u_sent now now' s = u_checkRatedQueue now now' (s\<lparr>connections := connections s - 1\<rparr>)"

definition send :: "job \<Rightarrow> int \<Rightarrow> int \<Rightarrow> transport \<Rightarrow> transport" where
  "send j now now' s =
     (if ge_num (connections s) (maxConnections s)
      then s\<lparr>pending := pending s @ [j], trace := trace s @ [Pushed j]\<rparr>
      else
        (case u_checkSendingRate now s of
           (False, s1) \<Rightarrow> s1\<lparr>pending := pending s1 @ [j], trace := trace s1 @ [Pushed j]\<rparr>
         | (True, s1) \<Rightarrow> u_send (mail j) (Send_cb j) now' s1))"

text \<open>
  A call of one of the two closures with arguments \<open>a\<close>:
  \<^verbatim>\<open>setImmediate(() => callback(...args)); this._sent();\<close>
\<close>

definition call_closure :: "closure \<Rightarrow> args \<Rightarrow> int \<Rightarrow> int \<Rightarrow> transport \<Rightarrow> transport" where
  "call_closure cb a now now' s =
     u_sent now now' (s\<lparr>trace := trace s @ [Immediate (callback (job_of cb)) a]\<rparr>)"

subsection \<open>Runs\<close>

text \<open>
  What can happen to a transport: a call of \<^verbatim>\<open>send\<close>, the executor finishing a
  message it was handed (it calls the closure once), and the outstanding timer firing. Each
  event carries the two readings of the clock that its code path may take, the first in
  \<^verbatim>\<open>_checkSendingRate\<close> and the second in \<^verbatim>\<open>_send\<close>.
\<close>

datatype event =
    Send job int int
  | Done closure outcome int int
  | Timer int int

fun step :: "transport \<Rightarrow> event \<Rightarrow> transport" where
  "step s (Send j now now') = send j now now' s"
| "step s (Done cb out now now') =
     (if cb \<in> set (executing s)
      then call_closure cb (callback_args out) now now' (s\<lparr>executing := remove1 cb (executing s)\<rparr>)
      else s)"
| "step s (Timer now now') =
     (case sendingRateTTL s of
        None \<Rightarrow> s
      | Some d \<Rightarrow> u_checkRatedQueue now now' (s\<lparr>sendingRateTTL := None\<rparr>))"

fun run :: "transport \<Rightarrow> event list \<Rightarrow> transport" where
  "run s [] = s"
| "run s (e # es) = run (step s e) es"

text \<open>The clock does not go backwards along a run that starts at reading \<open>c\<close>.\<close>

fun readings :: "event \<Rightarrow> int \<times> int" where
  "readings (Send j now now') = (now, now')"
| "readings (Done cb out now now') = (now, now')"
| "readings (Timer now now') = (now, now')"

fun chronological :: "int \<Rightarrow> event list \<Rightarrow> bool" where
  "chronological c [] = True"
| "chronological c (e # es) =
     (c \<le> fst (readings e) \<and> fst (readings e) \<le> snd (readings e) \<and>
      chronological (snd (readings e)) es)"

text \<open>Observations on a trace and on a run.\<close>

fun submitted :: "event list \<Rightarrow> job list" where
  "submitted [] = []"
| "submitted (Send j now now' # es) = j # submitted es"
| "submitted (e # es) = submitted es"

fun pushed :: "effect list \<Rightarrow> job list" where
  "pushed [] = []"
| "pushed (Pushed j # tr) = j # pushed tr"
| "pushed (e # tr) = pushed tr"

fun admitted :: "effect list \<Rightarrow> job list" where
  "admitted [] = []"
| "admitted (Started m cb t # tr) = job_of cb # admitted tr"
| "admitted (e # tr) = admitted tr"

fun drained :: "effect list \<Rightarrow> job list" where
  "drained [] = []"
| "drained (Started m (Queue_cb j) t # tr) = j # drained tr"
| "drained (e # tr) = drained tr"

fun admission_times :: "effect list \<Rightarrow> int list" where
  "admission_times [] = []"
| "admission_times (Started m cb t # tr) = t # admission_times tr"
| "admission_times (e # tr) = admission_times tr"


text \<open>A ceiling the configuration documents: a positive integer, or unbounded.\<close>

fun positive_integer_or_unbounded :: "jsnum \<Rightarrow> bool" where
  "positive_integer_or_unbounded PosInf = True"
| "positive_integer_or_unbounded (Fin r) = (1 \<le> r \<and> r = of_int \<lfloor>r\<rfloor>)"
| "positive_integer_or_unbounded NaN = False"
| "positive_integer_or_unbounded NegInf = False"

subsection \<open>A run without end\<close>




section \<open>Invariants\<close>

text \<open>
  The predicates that the proofs carry along a run: the counter against the callbacks the
  executor holds, the rate log against the recorded admissions, and the queue against
  the jobs that were pushed.
\<close>

definition slots_ok :: "transport \<Rightarrow> bool" where
  "slots_ok s =
     (positive_integer_or_unbounded (maxConnections s) \<and>
      connections s = int (length (executing s)) \<and>
      le_num (connections s) (maxConnections s))"

definition in_window :: "int \<Rightarrow> int \<Rightarrow> int \<Rightarrow> bool" where
  "in_window w T t = (T - w < t \<and> t \<le> T)"

definition window_count :: "int \<Rightarrow> int \<Rightarrow> int list \<Rightarrow> nat" where
  "window_count w T ts = length (filter (in_window w T) ts)"

definition rate_ok :: "int \<Rightarrow> transport \<Rightarrow> bool" where
  "rate_ok c s =
     (positive_integer_or_unbounded (sendingRate s) \<and>
      sorted (rateMessages s) \<and>
      (\<forall>t \<in> set (rateMessages s). t \<le> c) \<and>
      le_num (int (length (rateMessages s))) (sendingRate s) \<and>
      (\<exists>old. admission_times (trace s) = old @ rateMessages s \<and>
             (\<forall>t \<in> set old. t \<le> c - rateInterval s)) \<and>
      (\<forall>T. le_num (int (window_count (rateInterval s) T (admission_times (trace s))))
             (sendingRate s)))"


definition held_ok :: "transport \<Rightarrow> bool" where
  "held_ok s = (connections s = int (length (executing s)))"


section \<open>Auxiliary facts\<close>

subsection \<open>Ceilings\<close>

lemma lt_num_Suc_le:
  "positive_integer_or_unbounded R \<Longrightarrow> lt_num n R \<Longrightarrow> le_num (n + 1) R"
proof (cases R)
  case (Fin r)
  assume v: "positive_integer_or_unbounded R" and l: "lt_num n R"
  from v Fin have "r = of_int \<lfloor>r\<rfloor>" by simp
  moreover from l Fin have "of_int n < r" by simp
  ultimately have "n < \<lfloor>r\<rfloor>" by linarith
  then have "n + 1 \<le> \<lfloor>r\<rfloor>" by simp
  then have "of_int (n + 1) \<le> (of_int \<lfloor>r\<rfloor> :: rat)" by (simp only: of_int_le_iff)
  with \<open>r = of_int \<lfloor>r\<rfloor>\<close> Fin show ?thesis by simp
qed simp_all

lemma le_num_mono: "le_num n R \<Longrightarrow> m \<le> n \<Longrightarrow> le_num m R"
  by (cases R) (auto intro: order_trans)

lemma not_ge_num_lt: "R \<noteq> NaN \<Longrightarrow> (\<not> ge_num c R) = lt_num c R"
  by (cases R) auto

lemma le_num_zero: "positive_integer_or_unbounded R \<Longrightarrow> le_num 0 R"
  by (cases R) auto

subsection \<open>The pruning loop and the trace observers\<close>

lemma drop_count_remove:
  "drop (count_remove b ts) ts = dropWhile (\<lambda>t. t \<le> b) ts"
  by (induction ts) auto

lemma count_remove_zero:
  "count_remove b ts = 0 \<Longrightarrow> dropWhile (\<lambda>t. t \<le> b) ts = ts"
  using drop_count_remove [of b ts] by simp

lemma pushed_append: "pushed (xs @ ys) = pushed xs @ pushed ys"
  by (induction xs rule: pushed.induct) simp_all

lemma admitted_append: "admitted (xs @ ys) = admitted xs @ admitted ys"
  by (induction xs rule: admitted.induct) simp_all

lemma drained_append: "drained (xs @ ys) = drained xs @ drained ys"
  by (induction xs rule: drained.induct) simp_all

lemma admission_times_append:
  "admission_times (xs @ ys) = admission_times xs @ admission_times ys"
  by (induction xs rule: admission_times.induct) simp_all

lemmas trace_append = pushed_append admitted_append drained_append admission_times_append

text \<open>What one rate check changes and what it leaves alone.\<close>

lemma u_checkSendingRate_props:
  assumes "u_checkSendingRate now s = (ok, s1)"
  shows "maxConnections s1 = maxConnections s"
    and "connections s1 = connections s"
    and "sendingRate s1 = sendingRate s"
    and "rateInterval s1 = rateInterval s"
    and "pending s1 = pending s"
    and "executing s1 = executing s"
    and "rateMessages s1 = dropWhile (\<lambda>t. t \<le> now - rateInterval s) (rateMessages s)"
    and "ok = lt_num (int (length (rateMessages s1))) (sendingRate s)"
    and "pushed (trace s1) = pushed (trace s)"
    and "admitted (trace s1) = admitted (trace s)"
    and "drained (trace s1) = drained (trace s)"
    and "admission_times (trace s1) = admission_times (trace s)"
  using assms
  by (auto simp: u_checkSendingRate_def Let_def trace_append drop_count_remove count_remove_zero split: if_splits)

subsection \<open>The counter counts the callbacks the executor still holds\<close>

lemma slots_okD:
  assumes "slots_ok s"
  shows "positive_integer_or_unbounded (maxConnections s)"
    and "connections s = int (length (executing s))"
    and "le_num (int (length (executing s))) (maxConnections s)"
  using assms by (auto simp: slots_ok_def)

lemma slots_ok_u_checkRatedQueue:
  assumes "slots_ok s"
  shows "slots_ok (u_checkRatedQueue now now' s)"
proof (cases "ge_num (connections s) (maxConnections s)")
  case True
  with assms show ?thesis by (simp add: u_checkRatedQueue_def)
next
  case False
  obtain ok s1 where c: "u_checkSendingRate now s = (ok, s1)"
    by (cases "u_checkSendingRate now s")
  note p = u_checkSendingRate_props [OF c]
  note d = slots_okD [OF assms]
  from d(1) have nn: "maxConnections s \<noteq> NaN"
    by auto
  from d(1) False nn have room: "le_num (connections s + 1) (maxConnections s)"
    by (simp add: not_ge_num_lt lt_num_Suc_le)
  from False c d p room show ?thesis
    by (cases ok)
      (auto simp: u_checkRatedQueue_def u_send_def slots_ok_def split: list.splits)
qed

lemma slots_ok_send:
  assumes "slots_ok s"
  shows "slots_ok (send j now now' s)"
proof (cases "ge_num (connections s) (maxConnections s)")
  case True
  with slots_okD [OF assms] show ?thesis by (simp add: send_def slots_ok_def)
next
  case False
  obtain ok s1 where c: "u_checkSendingRate now s = (ok, s1)"
    by (cases "u_checkSendingRate now s")
  note p = u_checkSendingRate_props [OF c]
  note d = slots_okD [OF assms]
  from d(1) have nn: "maxConnections s \<noteq> NaN"
    by auto
  from d(1) False nn have room: "le_num (connections s + 1) (maxConnections s)"
    by (simp add: not_ge_num_lt lt_num_Suc_le)
  from False c d p room show ?thesis
    by (cases ok) (simp_all add: send_def u_send_def slots_ok_def)
qed

lemma slots_ok_call_closure:
  assumes "slots_ok s" and "cb \<in> set (executing s)"
  shows "slots_ok (call_closure cb a now now' (s\<lparr>executing := remove1 cb (executing s)\<rparr>))"
proof -
  note d = slots_okD [OF assms(1)]
  from assms(2) have "0 < length (executing s)"
    by (cases "executing s") auto
  then have "int (length (executing s) - 1) = int (length (executing s)) - 1"
    by linarith
  with assms(2) d have "slots_ok (s\<lparr>executing := remove1 cb (executing s),
      trace := trace s @ [Immediate (callback (job_of cb)) a],
      connections := connections s - 1\<rparr>)"
    by (simp add: slots_ok_def length_remove1 le_num_mono [of "int (length (executing s))"])
  then show ?thesis
    by (simp add: call_closure_def u_sent_def slots_ok_u_checkRatedQueue)
qed

lemma slots_ok_step: "slots_ok s \<Longrightarrow> slots_ok (step s e)"
proof (cases e)
  case (Send j now now')
  assume "slots_ok s"
  with Send show ?thesis by (simp add: slots_ok_send)
next
  case (Done cb out now now')
  assume "slots_ok s"
  with Done show ?thesis by (simp add: slots_ok_call_closure)
next
  case (Timer now now')
  assume a: "slots_ok s"
  then have "slots_ok (s\<lparr>sendingRateTTL := None\<rparr>)"
    by (auto simp: slots_ok_def)
  with a Timer show ?thesis
    by (simp add: slots_ok_u_checkRatedQueue split: option.splits)
qed

lemma slots_ok_run: "slots_ok s \<Longrightarrow> slots_ok (run s es)"
  by (induction es arbitrary: s) (simp_all add: slots_ok_step)

lemma SESTransport_Inr:
  assumes "SESTransport conv opts = Inr s0"
  obtains mc sr where "Number conv (opt_maxConnections (or_empty opts)) = Inr mc"
    and "Number conv (opt_sendingRate (or_empty opts)) = Inr sr"
    and "s0 = new_transport (or_Infinity mc) (or_Infinity sr)"
proof (cases "Number conv (opt_maxConnections (or_empty opts))")
  case (Inl e)
  with assms show ?thesis by (simp add: SESTransport_def)
next
  case mc: (Inr mc)
  show ?thesis
  proof (cases "Number conv (opt_sendingRate (or_empty opts))")
    case (Inl e)
    with assms mc show ?thesis by (simp add: SESTransport_def)
  next
    case (Inr sr)
    with assms mc that show ?thesis by (simp add: SESTransport_def)
  qed
qed

lemma SESTransport_new:
  assumes "SESTransport conv opts = Inr s0"
  shows "s0 = new_transport (maxConnections s0) (sendingRate s0)"
  using assms by (rule SESTransport_Inr) (simp add: new_transport_def)

subsection \<open>The rate log along a chronological run\<close>

lemma sorted_dropWhile_filter:
  "sorted ts \<Longrightarrow> dropWhile (\<lambda>t. t \<le> b) ts = filter (\<lambda>t. b < t) (ts :: int list)"
proof (induction ts)
  case Nil
  show ?case by simp
next
  case (Cons t ts)
  show ?case
  proof (cases "t \<le> b")
    case True
    with Cons show ?thesis by simp
  next
    case False
    with Cons.prems have "\<forall>u \<in> set ts. b < u" by auto
    then have "filter (\<lambda>t. b < t) ts = ts" by (simp add: filter_id_conv)
    with False show ?thesis by simp
  qed
qed

lemma sorted_takeWhile_filter:
  "sorted ts \<Longrightarrow> takeWhile (\<lambda>t. t \<le> b) ts = filter (\<lambda>t. t \<le> b) (ts :: int list)"
proof (induction ts)
  case Nil
  show ?case by simp
next
  case (Cons t ts)
  show ?case
  proof (cases "t \<le> b")
    case True
    with Cons show ?thesis by simp
  next
    case False
    with Cons.prems have "\<forall>u \<in> set ts. \<not> u \<le> b" by auto
    then have "filter (\<lambda>t. t \<le> b) ts = []" by (simp add: filter_empty_conv)
    with False show ?thesis by simp
  qed
qed

lemma rate_ok_cong:
  assumes "rate_ok c s"
    and "sendingRate s' = sendingRate s"
    and "rateMessages s' = rateMessages s"
    and "rateInterval s' = rateInterval s"
    and "admission_times (trace s') = admission_times (trace s)"
  shows "rate_ok c s'"
  using assms unfolding rate_ok_def by simp

lemma rate_ok_mono:
  assumes "rate_ok c s" and "c \<le> c'"
  shows "rate_ok c' s"
proof -
  from assms(1) obtain old where
    o: "admission_times (trace s) = old @ rateMessages s"
       "\<forall>t \<in> set old. t \<le> c - rateInterval s"
    unfolding rate_ok_def by blast
  from o(2) assms(2) have "\<forall>t \<in> set old. t \<le> c' - rateInterval s"
    by fastforce
  with o(1) have "\<exists>old. admission_times (trace s) = old @ rateMessages s \<and>
      (\<forall>t \<in> set old. t \<le> c' - rateInterval s)"
    by blast
  moreover from assms have "\<forall>t \<in> set (rateMessages s). t \<le> c'"
    unfolding rate_ok_def by fastforce
  ultimately show ?thesis
    using assms(1) unfolding rate_ok_def by simp
qed

lemma rate_ok_check:
  assumes "rate_ok c s" and "c \<le> now" and "u_checkSendingRate now s = (ok, s1)"
  shows "rate_ok now s1"
proof -
  note p = u_checkSendingRate_props [OF assms(3)]
  let ?b = "now - rateInterval s"
  let ?rm = "rateMessages s"
  from assms(1) obtain old where
    o: "admission_times (trace s) = old @ ?rm"
       "\<forall>t \<in> set old. t \<le> c - rateInterval s"
    unfolding rate_ok_def by blast
  from assms(1) have srt: "sorted ?rm" and bnd: "\<forall>t \<in> set ?rm. t \<le> c"
    and len: "le_num (int (length ?rm)) (sendingRate s)"
    unfolding rate_ok_def by simp_all
  have split: "?rm = takeWhile (\<lambda>t. t \<le> ?b) ?rm @ rateMessages s1"
    by (simp add: p(7))
  have "admission_times (trace s1) = (old @ takeWhile (\<lambda>t. t \<le> ?b) ?rm) @ rateMessages s1"
    using o(1) split p(12) by simp
  moreover have "\<forall>t \<in> set (old @ takeWhile (\<lambda>t. t \<le> ?b) ?rm). t \<le> now - rateInterval s1"
  proof
    fix t assume "t \<in> set (old @ takeWhile (\<lambda>t. t \<le> ?b) ?rm)"
    then consider "t \<in> set old" | "t \<in> set (takeWhile (\<lambda>t. t \<le> ?b) ?rm)" by auto
    then show "t \<le> now - rateInterval s1"
    proof cases
      case 1
      with o(2) assms(2) show ?thesis by (fastforce simp: p(4))
    next
      case 2
      then show ?thesis by (auto simp: p(4) dest: set_takeWhileD)
    qed
  qed
  ultimately have hist: "\<exists>old. admission_times (trace s1) = old @ rateMessages s1 \<and>
      (\<forall>t \<in> set old. t \<le> now - rateInterval s1)"
    by blast
  have "sorted (rateMessages s1)"
    using srt by (simp add: p(7) sorted_dropWhile)
  moreover have "\<forall>t \<in> set (rateMessages s1). t \<le> now"
    using bnd assms(2) by (fastforce simp: p(7) dest: set_dropWhileD)
  moreover have "le_num (int (length (rateMessages s1))) (sendingRate s1)"
    using len by (simp add: p(3) p(7) le_num_mono length_dropWhile_le)
  ultimately show ?thesis
    using assms(1) hist unfolding rate_ok_def by (simp add: p(3) p(4) p(12))
qed

lemma window_count_append:
  "window_count w T (xs @ ys) = window_count w T xs + window_count w T ys"
  by (simp add: window_count_def)

lemma rate_ok_u_send:
  assumes "rate_ok c s" and "c \<le> now'"
    and "lt_num (int (length (rateMessages s))) (sendingRate s)"
  shows "rate_ok now' (u_send m cb now' s)"
proof -
  let ?s' = "u_send m cb now' s"
  let ?rm = "rateMessages s"
  let ?w = "rateInterval s"
  let ?H = "admission_times (trace s)"
  from assms(1) obtain old where
    o: "?H = old @ ?rm" "\<forall>t \<in> set old. t \<le> c - ?w"
    unfolding rate_ok_def by blast
  from assms(1) have v: "positive_integer_or_unbounded (sendingRate s)"
    and srt: "sorted ?rm" and bnd: "\<forall>t \<in> set ?rm. t \<le> c"
    and W: "\<And>T. le_num (int (window_count ?w T ?H)) (sendingRate s)"
    unfolding rate_ok_def by simp_all
  have f: "sendingRate ?s' = sendingRate s" "rateInterval ?s' = ?w"
    "rateMessages ?s' = ?rm @ [now']" "admission_times (trace ?s') = ?H @ [now']"
    by (simp_all add: u_send_def admission_times_append)
  from v assms(3) have room: "le_num (int (length ?rm) + 1) (sendingRate s)"
    by (rule lt_num_Suc_le)
  have "sorted (?rm @ [now'])"
    using srt bnd assms(2) by (fastforce simp: sorted_append)
  moreover have "\<forall>t \<in> set (?rm @ [now']). t \<le> now'"
    using bnd assms(2) by fastforce
  moreover have "le_num (int (length (?rm @ [now']))) (sendingRate s)"
    using room by (simp add: add.commute)
  moreover have "\<exists>old. ?H @ [now'] = old @ ?rm @ [now'] \<and> (\<forall>t \<in> set old. t \<le> now' - ?w)"
  proof -
    from o(2) assms(2) have "\<forall>t \<in> set old. t \<le> now' - ?w" by fastforce
    with o(1) show ?thesis by auto
  qed
  moreover have "le_num (int (window_count ?w T (?H @ [now']))) (sendingRate s)" for T
  proof (cases "in_window ?w T now'")
    case False
    then have "window_count ?w T (?H @ [now']) = window_count ?w T ?H"
      by (simp add: window_count_def)
    with W [of T] show ?thesis by simp
  next
    case True
    then have lo: "c - ?w < now' \<and> now' - ?w \<le> T - ?w"
      using assms(2) by (auto simp: in_window_def)
    have "\<forall>t \<in> set old. \<not> in_window ?w T t"
    proof
      fix t assume "t \<in> set old"
      with o(2) have "t \<le> c - ?w" by blast
      with True assms(2) show "\<not> in_window ?w T t"
        by (auto simp: in_window_def)
    qed
    then have "window_count ?w T old = 0"
      by (simp add: window_count_def filter_empty_conv)
    then have "window_count ?w T (?H @ [now']) = window_count ?w T (?rm @ [now'])"
      by (simp add: o(1) window_count_append)
    also have "\<dots> \<le> length (?rm @ [now'])"
      unfolding window_count_def by (rule length_filter_le)
    finally have "int (window_count ?w T (?H @ [now'])) \<le> int (length ?rm) + 1"
      by simp
    with room show ?thesis by (rule le_num_mono)
  qed
  ultimately show ?thesis
    using v unfolding rate_ok_def f by simp
qed

lemma rate_ok_u_checkRatedQueue:
  assumes "rate_ok c s" and "c \<le> now" and "now \<le> now'"
  shows "rate_ok now' (u_checkRatedQueue now now' s)"
proof (cases "ge_num (connections s) (maxConnections s)")
  case True
  from assms have "rate_ok now' s" by (auto intro: rate_ok_mono)
  with True show ?thesis by (simp add: u_checkRatedQueue_def)
next
  case False
  obtain ok s1 where c: "u_checkSendingRate now s = (ok, s1)"
    by (cases "u_checkSendingRate now s")
  note p = u_checkSendingRate_props [OF c]
  from assms(1,2) c have r1: "rate_ok now s1" by (rule rate_ok_check)
  show ?thesis
  proof (cases "ok \<and> pending s \<noteq> []")
    case True
    then obtain nxt rest where nx: "pending s = nxt # rest"
      by (cases "pending s") auto
    from r1 have "rate_ok now (s1\<lparr>pending := rest\<rparr>)"
      by (rule rate_ok_cong) simp_all
    moreover from True p have "lt_num (int (length (rateMessages (s1\<lparr>pending := rest\<rparr>))))
        (sendingRate (s1\<lparr>pending := rest\<rparr>))"
      by simp
    ultimately have "rate_ok now' (u_send (mail nxt) (Queue_cb nxt) now' (s1\<lparr>pending := rest\<rparr>))"
      using assms(3) by (intro rate_ok_u_send)
    with True False c nx p(5) show ?thesis
      by (simp add: u_checkRatedQueue_def)
  next
    case no: False
    from r1 assms(3) have "rate_ok now' s1" by (rule rate_ok_mono)
    with no False c p(5) show ?thesis
      by (cases ok; cases "pending s") (simp_all add: u_checkRatedQueue_def)
  qed
qed

lemma rate_ok_send:
  assumes "rate_ok c s" and "c \<le> now" and "now \<le> now'"
  shows "rate_ok now' (send j now now' s)"
proof (cases "ge_num (connections s) (maxConnections s)")
  case True
  from assms have "rate_ok now' s" by (auto intro: rate_ok_mono)
  then have "rate_ok now' (s\<lparr>pending := pending s @ [j], trace := trace s @ [Pushed j]\<rparr>)"
    by (rule rate_ok_cong) (simp_all add: admission_times_append)
  with True show ?thesis by (simp add: send_def)
next
  case False
  obtain ok s1 where c: "u_checkSendingRate now s = (ok, s1)"
    by (cases "u_checkSendingRate now s")
  note p = u_checkSendingRate_props [OF c]
  from assms(1,2) c have r1: "rate_ok now s1" by (rule rate_ok_check)
  show ?thesis
  proof (cases ok)
    case True
    with p have "lt_num (int (length (rateMessages s1))) (sendingRate s1)" by simp
    with r1 assms(3) have "rate_ok now' (u_send (mail j) (Send_cb j) now' s1)"
      by (intro rate_ok_u_send)
    with True False c show ?thesis by (simp add: send_def)
  next
    case no: False
    from r1 assms(3) have "rate_ok now' s1" by (rule rate_ok_mono)
    then have "rate_ok now' (s1\<lparr>pending := pending s1 @ [j], trace := trace s1 @ [Pushed j]\<rparr>)"
      by (rule rate_ok_cong) (simp_all add: admission_times_append)
    with no False c show ?thesis by (simp add: send_def)
  qed
qed

lemma rate_ok_step:
  assumes "rate_ok c s" and "c \<le> fst (readings e)" and "fst (readings e) \<le> snd (readings e)"
  shows "rate_ok (snd (readings e)) (step s e)"
proof (cases e)
  case (Send j now now')
  with assms show ?thesis by (simp add: rate_ok_send)
next
  case (Done cb out now now')
  show ?thesis
  proof (cases "cb \<in> set (executing s)")
    case True
    let ?s' = "s\<lparr>executing := remove1 cb (executing s),
      trace := trace s @ [Immediate (callback (job_of cb)) (callback_args out)],
      connections := connections s - 1\<rparr>"
    from assms(1) have "rate_ok c ?s'"
      by (rule rate_ok_cong) (simp_all add: admission_times_append)
    with assms(2,3) Done have "rate_ok now' (u_checkRatedQueue now now' ?s')"
      by (intro rate_ok_u_checkRatedQueue) simp_all
    with True Done show ?thesis by (simp add: call_closure_def u_sent_def)
  next
    case False
    from assms Done have "rate_ok now' s" by (auto intro: rate_ok_mono)
    with False Done show ?thesis by simp
  qed
next
  case (Timer now now')
  show ?thesis
  proof (cases "sendingRateTTL s")
    case None
    from assms Timer have "rate_ok now' s" by (auto intro: rate_ok_mono)
    with None Timer show ?thesis by simp
  next
    case (Some d)
    from assms(1) have "rate_ok c (s\<lparr>sendingRateTTL := None\<rparr>)"
      by (rule rate_ok_cong) simp_all
    with assms(2,3) Timer
    have "rate_ok now' (u_checkRatedQueue now now' (s\<lparr>sendingRateTTL := None\<rparr>))"
      by (intro rate_ok_u_checkRatedQueue) simp_all
    with Some Timer show ?thesis by simp
  qed
qed

lemma rate_ok_run:
  "rate_ok c s \<Longrightarrow> chronological c es \<Longrightarrow> \<exists>c'. rate_ok c' (run s es)"
proof (induction es arbitrary: c s)
  case Nil
  then show ?case by auto
next
  case (Cons e es)
  from Cons.prems have "rate_ok (snd (readings e)) (step s e)"
    by (intro rate_ok_step) auto
  moreover from Cons.prems have "chronological (snd (readings e)) es" by simp
  ultimately show ?case using Cons.IH by simp
qed

lemma rateInterval_u_checkRatedQueue:
  "rateInterval (u_checkRatedQueue now now' s) = rateInterval s"
proof -
  obtain ok s1 where c: "u_checkSendingRate now s = (ok, s1)"
    by (cases "u_checkSendingRate now s")
  note p = u_checkSendingRate_props [OF c]
  from c p show ?thesis
    by (cases ok) (simp_all add: u_checkRatedQueue_def u_send_def split: list.splits)
qed

lemma sendingRate_u_checkRatedQueue:
  "sendingRate (u_checkRatedQueue now now' s) = sendingRate s"
proof -
  obtain ok s1 where c: "u_checkSendingRate now s = (ok, s1)"
    by (cases "u_checkSendingRate now s")
  note p = u_checkSendingRate_props [OF c]
  from c p show ?thesis
    by (cases ok) (simp_all add: u_checkRatedQueue_def u_send_def split: list.splits)
qed

lemma config_send:
  "rateInterval (send j now now' s) = rateInterval s"
  "sendingRate (send j now now' s) = sendingRate s"
proof -
  obtain ok s1 where c: "u_checkSendingRate now s = (ok, s1)"
    by (cases "u_checkSendingRate now s")
  note p = u_checkSendingRate_props [OF c]
  from c p show "rateInterval (send j now now' s) = rateInterval s"
    by (cases ok) (simp_all add: send_def u_send_def)
  from c p show "sendingRate (send j now now' s) = sendingRate s"
    by (cases ok) (simp_all add: send_def u_send_def)
qed

lemma config_step:
  "rateInterval (step s e) = rateInterval s"
  "sendingRate (step s e) = sendingRate s"
  by (cases e; simp add: config_send rateInterval_u_checkRatedQueue
      sendingRate_u_checkRatedQueue call_closure_def u_sent_def split: option.splits)+

lemma config_run:
  "rateInterval (run s es) = rateInterval s"
  "sendingRate (run s es) = sendingRate s"
  by (induction es arbitrary: s) (simp_all add: config_step)

subsection \<open>The timer that a refused rate check arms\<close>

lemma u_checkSendingRate_eq:
  "u_checkSendingRate now s =
     (let rm = dropWhile (\<lambda>t. t \<le> now - rateInterval s) (rateMessages s);
          s2 = s\<lparr>sendingRateTTL := None, rateMessages := rm\<rparr>
      in if lt_num (int (length rm)) (sendingRate s) then (True, s2)
         else
           (let arg = (case rm of [] \<Rightarrow> NaN_ms
                       | t # _ \<Rightarrow> Ms (now - max (t + 1001) (now + 20)))
            in (False, s2\<lparr>sendingRateTTL := Some arg, trace := trace s @ [Armed arg]\<rparr>)))"
proof -
  define rm where "rm = dropWhile (\<lambda>t. t \<le> now - rateInterval s) (rateMessages s)"
  show ?thesis
  proof (cases "count_remove (now - rateInterval s) (rateMessages s) = 0")
    case True
    then have "rateMessages s = rm"
      unfolding rm_def by (simp add: count_remove_zero)
    with True show ?thesis
      unfolding rm_def [symmetric]
      by (cases rm) (simp_all add: u_checkSendingRate_def Let_def)
  next
    case False
    have "drop (count_remove (now - rateInterval s) (rateMessages s)) (rateMessages s) = rm"
      unfolding rm_def by (rule drop_count_remove)
    with False show ?thesis
      unfolding rm_def [symmetric]
      by (cases rm) (simp_all add: u_checkSendingRate_def Let_def)
  qed
qed

text \<open>
  Whenever the check refuses with a log that is not empty, the argument it gives to
  \<^verbatim>\<open>setTimeout\<close> is at most \<open>-20\<close>.
\<close>

lemma refused_check_delay:
  assumes "u_checkSendingRate now s = (False, s1)" and "rateMessages s1 \<noteq> []"
  shows "sendingRateTTL s1 =
           Some (Ms (now - max (hd (rateMessages s1) + 1001) (now + 20)))"
    and "now - max (hd (rateMessages s1) + 1001) (now + 20) \<le> - 20"
proof -
  from assms show "sendingRateTTL s1 =
           Some (Ms (now - max (hd (rateMessages s1) + 1001) (now + 20)))"
    by (auto simp: u_checkSendingRate_eq Let_def split: if_splits list.splits)
  show "now - max (hd (rateMessages s1) + 1001) (now + 20) \<le> - 20"
    by simp
qed

subsection \<open>One redrive\<close>

lemma u_checkRatedQueue_cases:
  obtains (Full) "ge_num (connections s) (maxConnections s)"
      and "u_checkRatedQueue now now' s = s"
  | (Stay) ok s1 where "\<not> ge_num (connections s) (maxConnections s)"
      and "u_checkSendingRate now s = (ok, s1)"
      and "\<not> ok \<or> pending s = []"
      and "u_checkRatedQueue now now' s = s1"
  | (Shift) s1 nxt rest where "\<not> ge_num (connections s) (maxConnections s)"
      and "u_checkSendingRate now s = (True, s1)"
      and "pending s = nxt # rest"
      and "u_checkRatedQueue now now' s =
             u_send (mail nxt) (Queue_cb nxt) now' (s1\<lparr>pending := rest\<rparr>)"
proof (cases "ge_num (connections s) (maxConnections s)")
  case True
  then show ?thesis by (intro Full) (simp_all add: u_checkRatedQueue_def)
next
  case False
  obtain ok s1 where c: "u_checkSendingRate now s = (ok, s1)"
    by (cases "u_checkSendingRate now s")
  note p = u_checkSendingRate_props [OF c]
  show ?thesis
  proof (cases "ok \<and> pending s \<noteq> []")
    case True
    then obtain nxt rest where nx: "pending s = nxt # rest"
      by (cases "pending s") auto
    from True c have c': "u_checkSendingRate now s = (True, s1)" by simp
    from False c' nx p(5) have "u_checkRatedQueue now now' s =
             u_send (mail nxt) (Queue_cb nxt) now' (s1\<lparr>pending := rest\<rparr>)"
      by (simp add: u_checkRatedQueue_def)
    with False c' nx show ?thesis by (rule Shift)
  next
    case no: False
    with False c p(5) have "u_checkRatedQueue now now' s = s1"
      by (cases ok; cases "pending s") (simp_all add: u_checkRatedQueue_def)
    with False c no show ?thesis by (intro Stay) auto
  qed
qed

subsection \<open>The queue along a run\<close>




lemma submitted_Cons: "submitted (e # es) = submitted [e] @ submitted es"
  by (cases e) simp_all


subsection \<open>Release\<close>

lemma held_ok_u_checkRatedQueue:
  assumes "held_ok s"
  shows "held_ok (u_checkRatedQueue now now' s)"
proof (cases rule: u_checkRatedQueue_cases [where s = s and now = now and now' = now'])
  case Full
  with assms show ?thesis by simp
next
  case (Stay ok s1)
  note p = u_checkSendingRate_props [OF Stay(2)]
  from assms Stay(4) p show ?thesis by (simp add: held_ok_def)
next
  case (Shift s1 nxt rest)
  note p = u_checkSendingRate_props [OF Shift(2)]
  from assms Shift(4) p show ?thesis by (simp add: held_ok_def u_send_def)
qed

lemma held_ok_send:
  assumes "held_ok s"
  shows "held_ok (send j now now' s)"
proof -
  obtain ok s1 where c: "u_checkSendingRate now s = (ok, s1)"
    by (cases "u_checkSendingRate now s")
  note p = u_checkSendingRate_props [OF c]
  from assms c p show ?thesis
    by (cases ok) (simp_all add: send_def held_ok_def u_send_def)
qed

lemma held_ok_step:
  assumes "held_ok s"
  shows "held_ok (step s e)"
proof (cases e)
  case (Send j now now')
  with assms show ?thesis by (simp add: held_ok_send)
next
  case (Done cb out now now')
  show ?thesis
  proof (cases "cb \<in> set (executing s)")
    case True
    then have "0 < length (executing s)"
      by (cases "executing s") auto
    then have "int (length (executing s) - 1) = int (length (executing s)) - 1"
      by linarith
    with assms True have "held_ok (s\<lparr>executing := remove1 cb (executing s),
        trace := trace s @ [Immediate (callback (job_of cb)) (callback_args out)],
        connections := connections s - 1\<rparr>)"
      by (simp add: held_ok_def length_remove1)
    with True Done show ?thesis
      by (simp add: call_closure_def u_sent_def held_ok_u_checkRatedQueue)
  next
    case False
    with assms Done show ?thesis by simp
  qed
next
  case (Timer now now')
  from assms have "held_ok (s\<lparr>sendingRateTTL := None\<rparr>)"
    by (simp add: held_ok_def)
  with assms Timer show ?thesis
    by (simp add: held_ok_u_checkRatedQueue split: option.splits)
qed

lemma held_ok_run: "held_ok s \<Longrightarrow> held_ok (run s es)"
  by (induction es arbitrary: s) (simp_all add: held_ok_step)

subsection \<open>A failed message\<close>

lemma filter_dropWhile_expired:
  "filter (\<lambda>t. b < t) (dropWhile (\<lambda>t. t \<le> b) ts) = filter (\<lambda>t. b < t) (ts :: int list)"
  by (induction ts) auto

lemma u_checkRatedQueue_keeps_unexpired:
  "prefix (filter (\<lambda>t. now - rateInterval s < t) (rateMessages s))
     (filter (\<lambda>t. now - rateInterval s < t) (rateMessages (u_checkRatedQueue now now' s)))"
proof (cases rule: u_checkRatedQueue_cases [where s = s and now = now and now' = now'])
  case Full
  then show ?thesis by simp
next
  case (Stay ok s1)
  note p = u_checkSendingRate_props [OF Stay(2)]
  from Stay(4) p(7) show ?thesis by (simp add: filter_dropWhile_expired)
next
  case (Shift s1 nxt rest)
  note p = u_checkSendingRate_props [OF Shift(2)]
  from Shift(4) p(7) show ?thesis by (simp add: u_send_def filter_dropWhile_expired)
qed

lemma u_checkSendingRate_trace_grows:
  assumes "u_checkSendingRate now s = (ok, s1)"
  shows "prefix (trace s) (trace s1)"
  using assms by (auto simp: u_checkSendingRate_eq Let_def split: if_splits)

lemma u_checkRatedQueue_trace_grows:
  "prefix (trace s) (trace (u_checkRatedQueue now now' s))"
proof (cases rule: u_checkRatedQueue_cases [where s = s and now = now and now' = now'])
  case Full
  then show ?thesis by simp
next
  case (Stay ok s1)
  from Stay(4) u_checkSendingRate_trace_grows [OF Stay(2)] show ?thesis by simp
next
  case (Shift s1 nxt rest)
  from u_checkSendingRate_trace_grows [OF Shift(2)]
  have "prefix (trace s) (trace s1 @ [Started (mail nxt) (Queue_cb nxt) now'])"
    by (rule prefix_order.order_trans) simp
  with Shift(4) show ?thesis by (simp add: u_send_def)
qed

lemma u_checkRatedQueue_ignores_trace:
  "rateMessages (u_checkRatedQueue now now' (s\<lparr>trace := tr\<rparr>)) =
     rateMessages (u_checkRatedQueue now now' s)"
  "connections (u_checkRatedQueue now now' (s\<lparr>trace := tr\<rparr>)) =
     connections (u_checkRatedQueue now now' s)"
  "pending (u_checkRatedQueue now now' (s\<lparr>trace := tr\<rparr>)) =
     pending (u_checkRatedQueue now now' s)"
  "executing (u_checkRatedQueue now now' (s\<lparr>trace := tr\<rparr>)) =
     executing (u_checkRatedQueue now now' s)"
  by (simp_all add: u_checkRatedQueue_def u_checkSendingRate_eq u_send_def Let_def
      split: list.splits)

subsection \<open>Where the callback of a job is\<close>









subsection \<open>A schedule that starves a queued job\<close>


lemma chronological_earlier: "chronological c es \<Longrightarrow> c' \<le> c \<Longrightarrow> chronological c' es"
  by (cases es) auto








subsection \<open>Unbounded ceilings\<close>

lemma maxConnections_u_checkRatedQueue:
  "maxConnections (u_checkRatedQueue now now' s) = maxConnections s"
proof (cases rule: u_checkRatedQueue_cases [where s = s and now = now and now' = now'])
  case Full
  then show ?thesis by simp
next
  case (Stay ok s1)
  from Stay(4) u_checkSendingRate_props(1) [OF Stay(2)] show ?thesis by simp
next
  case (Shift s1 nxt rest)
  from Shift(4) u_checkSendingRate_props(1) [OF Shift(2)] show ?thesis
    by (simp add: u_send_def)
qed

lemma maxConnections_step: "maxConnections (step s e) = maxConnections s"
proof (cases e)
  case (Send j now now')
  obtain ok s1 where c: "u_checkSendingRate now s = (ok, s1)"
    by (cases "u_checkSendingRate now s")
  from Send c u_checkSendingRate_props(1) [OF c] show ?thesis
    by (cases ok) (simp_all add: send_def u_send_def)
next
  case (Done cb out now now')
  then show ?thesis
    by (simp add: call_closure_def u_sent_def maxConnections_u_checkRatedQueue)
next
  case (Timer now now')
  then show ?thesis
    by (simp add: maxConnections_u_checkRatedQueue split: option.splits)
qed

lemma maxConnections_run: "maxConnections (run s es) = maxConnections s"
  by (induction es arbitrary: s) (simp_all add: maxConnections_step)

lemma unbounded_step:
  assumes "maxConnections s = PosInf" and "sendingRate s = PosInf" and "pending s = []"
  shows "pending (step s e) = [] \<and>
         admitted (trace (step s e)) = admitted (trace s) @ submitted [e]"
proof (cases e)
  case (Send j now now')
  obtain ok s1 where c: "u_checkSendingRate now s = (ok, s1)"
    by (cases "u_checkSendingRate now s")
  note p = u_checkSendingRate_props [OF c]
  from p(8) assms(2) have "ok" by simp
  with Send c p assms show ?thesis
    by (simp add: send_def u_send_def admitted_append)
next
  case (Done cb out now now')
  let ?s' = "s\<lparr>executing := remove1 cb (executing s),
      trace := trace s @ [Immediate (callback (job_of cb)) (callback_args out)],
      connections := connections s - 1\<rparr>"
  have "pending (u_checkRatedQueue now now' ?s') = [] \<and>
        admitted (trace (u_checkRatedQueue now now' ?s')) = admitted (trace s)"
  proof (cases rule: u_checkRatedQueue_cases [where s = ?s' and now = now and now' = now'])
    case Full
    with assms show ?thesis by (simp add: admitted_append)
  next
    case (Stay ok s1)
    note p = u_checkSendingRate_props [OF Stay(2)]
    from Stay(4) p assms show ?thesis by (simp add: admitted_append)
  next
    case (Shift s1 nxt rest)
    with assms show ?thesis by simp
  qed
  with Done assms show ?thesis
    by (simp add: call_closure_def u_sent_def)
next
  case (Timer now now')
  let ?s' = "s\<lparr>sendingRateTTL := None\<rparr>"
  have "pending (u_checkRatedQueue now now' ?s') = [] \<and>
        admitted (trace (u_checkRatedQueue now now' ?s')) = admitted (trace s)"
  proof (cases rule: u_checkRatedQueue_cases [where s = ?s' and now = now and now' = now'])
    case Full
    with assms show ?thesis by simp
  next
    case (Stay ok s1)
    note p = u_checkSendingRate_props [OF Stay(2)]
    from Stay(4) p assms show ?thesis by simp
  next
    case (Shift s1 nxt rest)
    with assms show ?thesis by simp
  qed
  with Timer assms show ?thesis
    by (simp split: option.splits)
qed

lemma unbounded_run:
  assumes "maxConnections s = PosInf" and "sendingRate s = PosInf" and "pending s = []"
  shows "pending (run s es) = [] \<and>
         admitted (trace (run s es)) = admitted (trace s) @ submitted es"
  using assms
proof (induction es arbitrary: s)
  case Nil
  then show ?case by simp
next
  case (Cons e es)
  from unbounded_step [OF Cons.prems, of e]
  have st: "pending (step s e) = []"
    "admitted (trace (step s e)) = admitted (trace s) @ submitted [e]"
    by simp_all
  from Cons.prems have cfg: "maxConnections (step s e) = PosInf" "sendingRate (step s e) = PosInf"
    by (simp_all add: maxConnections_step config_step)
  from Cons.IH [OF cfg st(1)] st(2) show ?case
    by (simp add: submitted_Cons [of e es])
qed

section \<open>Claims\<close>




text \<open>
  C2. In every reachable state of a transport, over any sequence of send, completion and
  timer steps, the counter \<open>connections\<close> satisfies
  \<open>0 \<le> connections \<le> maxConnections\<close>. The transport is one the constructor
  returns for a documented ceiling (a positive integer, or unbounded).
\<close>

theorem connections_within_ceiling:
  assumes "SESTransport conv opts = Inr s0"
    and "positive_integer_or_unbounded (maxConnections s0)"
  shows "0 \<le> connections (run s0 es) \<and>
         le_num (connections (run s0 es)) (maxConnections (run s0 es))"
proof -
  have "s0 = new_transport (maxConnections s0) (sendingRate s0)"
    using assms(1) by (rule SESTransport_new)
  then have "connections s0 = 0" and "executing s0 = []"
    by (metis new_transport_def transport.select_convs)+
  with assms(2) have "slots_ok s0"
    by (simp add: slots_ok_def le_num_zero)
  then have "slots_ok (run s0 es)"
    by (rule slots_ok_run)
  then show ?thesis
    by (auto simp: slots_ok_def)
qed

theorem connections_within_ceiling_witness:
  "SESTransport (\<lambda>x::unit. Inl TypeError)
     (Some \<lparr> opt_maxConnections = JNumber (Fin 1), opt_sendingRate = JUndefined \<rparr>)
     = Inr (new_transport (Fin 1) PosInf) \<and>
   positive_integer_or_unbounded (maxConnections (new_transport (Fin 1) PosInf)) \<and>
   connections (run (new_transport (Fin 1) PosInf)
     [Send (Job 1 1) 0 0, Send (Job 2 2) 0 0]) = 1 \<and>
   0 \<le> connections (run (new_transport (Fin 1) PosInf)
     [Send (Job 1 1) 0 0, Send (Job 2 2) 0 0]) \<and>
   le_num (connections (run (new_transport (Fin 1) PosInf)
       [Send (Job 1 1) 0 0, Send (Job 2 2) 0 0]))
     (maxConnections (run (new_transport (Fin 1) PosInf)
       [Send (Job 1 1) 0 0, Send (Job 2 2) 0 0]))"
proof -
  have c: "SESTransport (\<lambda>x::unit. Inl TypeError)
     (Some \<lparr> opt_maxConnections = JNumber (Fin 1), opt_sendingRate = JUndefined \<rparr>)
     = Inr (new_transport (Fin 1) PosInf)"
    by (simp add: SESTransport_def or_empty_def or_Infinity_def)
  have v: "positive_integer_or_unbounded (maxConnections (new_transport (Fin 1) PosInf))"
    by (simp add: new_transport_def)
  have e: "connections (run (new_transport (Fin 1) PosInf)
     [Send (Job 1 1) 0 0, Send (Job 2 2) 0 0]) = 1"
    by (simp add: new_transport_def send_def u_checkSendingRate_def u_send_def Let_def)
  from connections_within_ceiling [OF c v, of "[Send (Job 1 1) 0 0, Send (Job 2 2) 0 0]"] c v e
  show ?thesis by simp
qed

text \<open>
  C3. Along every run in which the clock does not go backwards, and for every trailing
  window of length \<open>rateInterval\<close> (1000 ms), the number of admissions whose recorded
  time lies in the window is at most \<open>sendingRate\<close>; the rate log is in non-decreasing
  order and no longer than \<open>sendingRate\<close>, and strictly shorter right after a rate
  check that succeeds. The transport is one the constructor returns for a documented rate
  (a positive integer, or unbounded).
\<close>

theorem rate_window_bounded:
  assumes "SESTransport conv opts = Inr s0"
    and "positive_integer_or_unbounded (sendingRate s0)"
    and "chronological c es"
  shows "rateInterval (run s0 es) = 1000 \<and>
         (\<forall>T. le_num (int (length (filter (\<lambda>t. T - 1000 < t \<and> t \<le> T)
                    (admission_times (trace (run s0 es))))))
                  (sendingRate s0)) \<and>
         sorted (rateMessages (run s0 es)) \<and>
         le_num (int (length (rateMessages (run s0 es)))) (sendingRate s0) \<and>
         (\<forall>now. fst (u_checkSendingRate now (run s0 es)) \<longrightarrow>
            lt_num (int (length (rateMessages (snd (u_checkSendingRate now (run s0 es))))))
              (sendingRate s0))"
proof -
  let ?s = "run s0 es"
  have n: "s0 = new_transport (maxConnections s0) (sendingRate s0)"
    using assms(1) by (rule SESTransport_new)
  then have init: "rateInterval s0 = 1000" "rateMessages s0 = []" "trace s0 = []"
    by (metis new_transport_def transport.select_convs)+
  with assms(2) have "rate_ok c s0"
    by (simp add: rate_ok_def le_num_zero window_count_def)
  with assms(3) obtain c' where r: "rate_ok c' ?s"
    using rate_ok_run by blast
  have cfg: "rateInterval ?s = 1000" "sendingRate ?s = sendingRate s0"
    by (simp_all add: config_run init)
  from r have W: "\<And>T. le_num (int (window_count 1000 T (admission_times (trace ?s))))
      (sendingRate s0)"
    unfolding rate_ok_def cfg by simp
  have chk: "lt_num (int (length (rateMessages (snd (u_checkSendingRate now ?s)))))
      (sendingRate s0)" if "fst (u_checkSendingRate now ?s)" for now
  proof -
    obtain ok s1 where c: "u_checkSendingRate now ?s = (ok, s1)"
      by (cases "u_checkSendingRate now ?s")
    from u_checkSendingRate_props(8) [OF c] that c cfg show ?thesis by simp
  qed
  from r have "sorted (rateMessages ?s)"
    and "le_num (int (length (rateMessages ?s))) (sendingRate s0)"
    unfolding rate_ok_def cfg by simp_all
  with W chk cfg(1) show ?thesis
    unfolding window_count_def in_window_def by simp
qed

theorem rate_window_bounded_witness:
  "let s0 = new_transport PosInf (Fin 2);
       es = [Send (Job 1 1) 0 0, Send (Job 2 2) 0 0, Send (Job 3 3) 0 0, Timer 1000 1000]
   in SESTransport (\<lambda>x::unit. Inl TypeError)
        (Some \<lparr> opt_maxConnections = JUndefined, opt_sendingRate = JNumber (Fin 2) \<rparr>) = Inr s0 \<and>
      positive_integer_or_unbounded (sendingRate s0) \<and>
      chronological 0 es \<and>
      admission_times (trace (run s0 es)) = [0, 0, 1000] \<and>
      rateMessages (run s0 es) = [1000] \<and>
      le_num (int (length (filter (\<lambda>t. 1000 - 1000 < t \<and> t \<le> 1000)
        (admission_times (trace (run s0 es)))))) (sendingRate s0) \<and>
      le_num (int (length (filter (\<lambda>t. 999 - 1000 < t \<and> t \<le> 999)
        (admission_times (trace (run s0 es)))))) (sendingRate s0) \<and>
      sorted (rateMessages (run s0 es)) \<and>
      le_num (int (length (rateMessages (run s0 es)))) (sendingRate s0) \<and>
      fst (u_checkSendingRate 1000 (run s0 es)) \<and>
      lt_num (int (length (rateMessages (snd (u_checkSendingRate 1000 (run s0 es))))))
        (sendingRate s0)"
proof -
  let ?s0 = "new_transport PosInf (Fin 2)"
  let ?es = "[Send (Job 1 1) 0 0, Send (Job 2 2) 0 0, Send (Job 3 3) 0 0, Timer 1000 1000]"
  have c: "SESTransport (\<lambda>x::unit. Inl TypeError)
        (Some \<lparr> opt_maxConnections = JUndefined, opt_sendingRate = JNumber (Fin 2) \<rparr>) = Inr ?s0"
    by (simp add: SESTransport_def or_empty_def or_Infinity_def)
  have v: "positive_integer_or_unbounded (sendingRate ?s0)"
    by (simp add: new_transport_def)
  have ch: "chronological 0 ?es"
    by simp
  have r: "run ?s0 ?es =
    \<lparr> maxConnections = PosInf, connections = 3, sendingRate = Fin 2, sendingRateTTL = None,
      rateInterval = 1000, rateMessages = [1000], pending = [],
      executing = [Send_cb (Job 1 1), Send_cb (Job 2 2), Queue_cb (Job 3 3)],
      trace = [Started 1 (Send_cb (Job 1 1)) 0, Started 2 (Send_cb (Job 2 2)) 0,
               Armed (Ms (- 1001)), Pushed (Job 3 3), Started 3 (Queue_cb (Job 3 3)) 1000] \<rparr>"
    by (simp add: new_transport_def send_def u_checkRatedQueue_def u_checkSendingRate_def
        u_send_def Let_def)
  have f: "fst (u_checkSendingRate 1000 (run ?s0 ?es))"
    unfolding r by (simp add: u_checkSendingRate_def Let_def)
  note t = rate_window_bounded [OF c v ch]
  from t have w1: "le_num (int (length (filter (\<lambda>t. 1000 - 1000 < t \<and> t \<le> 1000)
        (admission_times (trace (run ?s0 ?es)))))) (sendingRate ?s0)"
    by blast
  from t have w2: "le_num (int (length (filter (\<lambda>t. 999 - 1000 < t \<and> t \<le> 999)
        (admission_times (trace (run ?s0 ?es)))))) (sendingRate ?s0)"
    by blast
  from t f have w3: "lt_num (int (length (rateMessages (snd (u_checkSendingRate 1000 (run ?s0 ?es))))))
        (sendingRate ?s0)"
    by blast
  from t have w4: "sorted (rateMessages (run ?s0 ?es))"
    and w5: "le_num (int (length (rateMessages (run ?s0 ?es)))) (sendingRate ?s0)"
    by blast+
  have a: "admission_times (trace (run ?s0 ?es)) = [0, 0, 1000]"
    and b: "rateMessages (run ?s0 ?es) = [1000]"
    unfolding r by simp_all
  from c v ch a b w1 w2 w3 w4 w5 f show ?thesis
    unfolding Let_def by blast
qed

text \<open>
  C4. When the rate check refuses, the timer it arms should wait for
  \<open>oldest + rateInterval - now\<close> milliseconds and at least about 20, so that the delay is
  positive and an entry has expired when it fires. The code computes the time of the next
  check, \<^verbatim>\<open>Math.max(this.rateMessages[0] + 1001, now + 20)\<close>, and then passes
  \<^verbatim>\<open>now - delay\<close> to \<^verbatim>\<open>setTimeout\<close>: with one message admitted at time 0
  and a rate of 1, a check at time 500 arms the timer with \<open>-501\<close>, where the claim
  asks for 500.
\<close>

theorem recheck_delay_is_negative:
  "let s = run (new_transport PosInf (Fin 1)) [Send (Job 1 1) 0 0]
   in rateMessages s = [0] \<and>
      u_checkSendingRate 500 s =
        (False, s\<lparr>sendingRateTTL := Some (Ms (- 501)), trace := trace s @ [Armed (Ms (- 501))]\<rparr>) \<and>
      sendingRateTTL (run (new_transport PosInf (Fin 1))
        [Send (Job 1 1) 0 0, Send (Job 2 2) 500 500]) = Some (Ms (- 501))"
  by (simp add: new_transport_def send_def u_checkSendingRate_def u_send_def Let_def)

text \<open>
  C5 as amended. One call of \<^verbatim>\<open>_checkRatedQueue\<close> hands at most one job to the
  executor: when the counter is below its ceiling, the rate check succeeds and the queue is
  not empty, it removes the head job and hands over that job, leaving the rest of the queue
  in order; otherwise it hands over nothing and leaves the queue as it is.
\<close>

theorem redrive_admits_at_most_one:
  "(if \<not> ge_num (connections s) (maxConnections s) \<and> fst (u_checkSendingRate now s) \<and>
       pending s \<noteq> []
    then pending s = hd (pending s) # pending (u_checkRatedQueue now now' s) \<and>
         admitted (trace (u_checkRatedQueue now now' s)) = admitted (trace s) @ [hd (pending s)] \<and>
         executing (u_checkRatedQueue now now' s) = executing s @ [Queue_cb (hd (pending s))]
    else pending (u_checkRatedQueue now now' s) = pending s \<and>
         admitted (trace (u_checkRatedQueue now now' s)) = admitted (trace s) \<and>
         executing (u_checkRatedQueue now now' s) = executing s)"
proof (cases rule: u_checkRatedQueue_cases [where s = s and now = now and now' = now'])
  case Full
  then show ?thesis by simp
next
  case (Stay ok s1)
  note p = u_checkSendingRate_props [OF Stay(2)]
  from Stay p show ?thesis by auto
next
  case (Shift s1 nxt rest)
  note p = u_checkSendingRate_props [OF Shift(2)]
  from Shift p show ?thesis
    by (simp add: u_send_def admitted_append)
qed

theorem redrive_admits_at_most_one_witness:
  "let s = run (new_transport PosInf (Fin 2))
             [Send (Job 1 1) 0 0, Send (Job 2 2) 0 0, Send (Job 3 3) 0 0, Send (Job 4 4) 0 0];
       s' = u_checkRatedQueue 1000 1000 s
   in \<not> ge_num (connections s) (maxConnections s) \<and> fst (u_checkSendingRate 1000 s) \<and>
      pending s = [Job 3 3, Job 4 4] \<and> admitted (trace s) = [Job 1 1, Job 2 2] \<and>
      pending s = hd (pending s) # pending s' \<and>
      admitted (trace s') = admitted (trace s) @ [hd (pending s)] \<and>
      executing s' = executing s @ [Queue_cb (hd (pending s))]"
proof -
  let ?s = "run (new_transport PosInf (Fin 2))
             [Send (Job 1 1) 0 0, Send (Job 2 2) 0 0, Send (Job 3 3) 0 0, Send (Job 4 4) 0 0]"
  have r: "?s =
    \<lparr> maxConnections = PosInf, connections = 2, sendingRate = Fin 2,
      sendingRateTTL = Some (Ms (- 1001)),
      rateInterval = 1000, rateMessages = [0, 0], pending = [Job 3 3, Job 4 4],
      executing = [Send_cb (Job 1 1), Send_cb (Job 2 2)],
      trace = [Started 1 (Send_cb (Job 1 1)) 0, Started 2 (Send_cb (Job 2 2)) 0,
               Armed (Ms (- 1001)), Pushed (Job 3 3), Armed (Ms (- 1001)), Pushed (Job 4 4)] \<rparr>"
    by (simp add: new_transport_def send_def u_checkSendingRate_def u_send_def Let_def)
  have h: "\<not> ge_num (connections ?s) (maxConnections ?s) \<and> fst (u_checkSendingRate 1000 ?s) \<and>
      pending ?s \<noteq> []"
    unfolding r by (simp add: u_checkSendingRate_def Let_def)
  have e: "pending ?s = [Job 3 3, Job 4 4]" "admitted (trace ?s) = [Job 1 1, Job 2 2]"
    unfolding r by simp_all
  from redrive_admits_at_most_one [of ?s 1000 1000] h e show ?thesis
    unfolding Let_def by simp
qed

text \<open>
  C5 as stated fails: after one call of \<^verbatim>\<open>_checkRatedQueue\<close> a job is still
  queued although the counter is below its ceiling and the rate check succeeds.
\<close>

theorem redrive_leaves_admissible_job_queued:
  "let s = run (new_transport PosInf (Fin 2))
             [Send (Job 1 1) 0 0, Send (Job 2 2) 0 0, Send (Job 3 3) 0 0, Send (Job 4 4) 0 0];
       s' = u_checkRatedQueue 1000 1000 s
   in pending s = [Job 3 3, Job 4 4] \<and> pending s' = [Job 4 4] \<and>
      \<not> ge_num (connections s') (maxConnections s') \<and>
      fst (u_checkSendingRate 1000 s')"
  by (simp add: new_transport_def send_def u_checkRatedQueue_def u_checkSendingRate_def
      u_send_def Let_def)




text \<open>
  C7. When the executor calls back for a message it holds, \<^verbatim>\<open>_sent\<close> runs: it
  takes exactly one off the counter, which does not go below zero, and then redrives the
  queue. The redrive is seen in the state the step leaves: when the lowered counter is
  below its ceiling, the pruned rate log is shorter than the rate and a job is waiting,
  the head of the queue goes to the executor, the counter goes up again and the time of
  the admission joins the log; when the counter is at its ceiling nothing else changes;
  when the rate check refuses a timer is armed and the queue stays.
\<close>

theorem release_decrements_then_redrives:
  assumes "cb \<in> set (executing (run (new_transport mc sr) es))"
  shows "let s = run (new_transport mc sr) es;
             s1 = s\<lparr>executing := remove1 cb (executing s),
                    trace := trace s @ [Immediate (callback (job_of cb)) (callback_args out)]\<rparr>;
             s' = step s (Done cb out now now');
             log = dropWhile (\<lambda>t. t \<le> now - rateInterval s) (rateMessages s)
         in s' = u_sent now now' s1 \<and>
            u_sent now now' s1 =
              u_checkRatedQueue now now' (s1\<lparr>connections := connections s - 1\<rparr>) \<and>
            connections (s1\<lparr>connections := connections s - 1\<rparr>) = connections s - 1 \<and>
            0 \<le> connections s - 1 \<and>
            (if ge_num (connections s - 1) (maxConnections s)
             then s' = s1\<lparr>connections := connections s - 1\<rparr>
             else if \<not> lt_num (int (length log)) (sendingRate s)
             then connections s' = connections s - 1 \<and> pending s' = pending s \<and>
                  executing s' = remove1 cb (executing s) \<and> rateMessages s' = log \<and>
                  sendingRateTTL s' \<noteq> None
             else if pending s = []
             then connections s' = connections s - 1 \<and> pending s' = [] \<and>
                  executing s' = remove1 cb (executing s) \<and> rateMessages s' = log \<and>
                  sendingRateTTL s' = None
             else connections s' = connections s \<and>
                  pending s = hd (pending s) # pending s' \<and>
                  executing s' = remove1 cb (executing s) @ [Queue_cb (hd (pending s))] \<and>
                  rateMessages s' = log @ [now'] \<and>
                  sendingRateTTL s' = None \<and>
                  trace s' = trace s @
                    [Immediate (callback (job_of cb)) (callback_args out),
                     Started (mail (hd (pending s))) (Queue_cb (hd (pending s))) now'])"
proof -
  let ?s = "run (new_transport mc sr) es"
  let ?s1 = "?s\<lparr>executing := remove1 cb (executing ?s),
                    trace := trace ?s @ [Immediate (callback (job_of cb)) (callback_args out)]\<rparr>"
  let ?s2 = "?s1\<lparr>connections := connections ?s - 1\<rparr>"
  let ?s' = "step ?s (Done cb out now now')"
  let ?log = "dropWhile (\<lambda>t. t \<le> now - rateInterval ?s) (rateMessages ?s)"
  have "held_ok (new_transport mc sr)"
    by (simp add: held_ok_def new_transport_def)
  then have "held_ok ?s" by (rule held_ok_run)
  moreover from assms have "0 < length (executing ?s)"
    by (cases "executing ?s") auto
  ultimately have nn: "0 \<le> connections ?s - 1"
    by (simp add: held_ok_def)
  from assms have st: "?s' = u_checkRatedQueue now now' ?s2"
    by (simp add: call_closure_def u_sent_def)
  have us: "u_sent now now' ?s1 = u_checkRatedQueue now now' ?s2"
    by (simp add: u_sent_def)
  have eff: "(if ge_num (connections ?s - 1) (maxConnections ?s)
             then ?s' = ?s2
             else if \<not> lt_num (int (length ?log)) (sendingRate ?s)
             then connections ?s' = connections ?s - 1 \<and> pending ?s' = pending ?s \<and>
                  executing ?s' = remove1 cb (executing ?s) \<and> rateMessages ?s' = ?log \<and>
                  sendingRateTTL ?s' \<noteq> None
             else if pending ?s = []
             then connections ?s' = connections ?s - 1 \<and> pending ?s' = [] \<and>
                  executing ?s' = remove1 cb (executing ?s) \<and> rateMessages ?s' = ?log \<and>
                  sendingRateTTL ?s' = None
             else connections ?s' = connections ?s \<and>
                  pending ?s = hd (pending ?s) # pending ?s' \<and>
                  executing ?s' = remove1 cb (executing ?s) @ [Queue_cb (hd (pending ?s))] \<and>
                  rateMessages ?s' = ?log @ [now'] \<and>
                  sendingRateTTL ?s' = None \<and>
                  trace ?s' = trace ?s @
                    [Immediate (callback (job_of cb)) (callback_args out),
                     Started (mail (hd (pending ?s))) (Queue_cb (hd (pending ?s))) now'])"
    unfolding st
    by (cases "pending ?s")
      (simp_all add: u_checkRatedQueue_def u_checkSendingRate_eq u_send_def Let_def)
  from st us nn eff show ?thesis
    unfolding Let_def by (simp add: u_sent_def)
qed

theorem release_decrements_then_redrives_witness:
  "let s = run (new_transport (Fin 1) PosInf) [Send (Job 1 1) 0 0, Send (Job 2 2) 0 0];
       cb = Send_cb (Job 1 1);
       s' = step s (Done cb (Accepted 9) 5 6)
   in cb \<in> set (executing s) \<and> connections s = 1 \<and> pending s = [Job 2 2] \<and>
      0 \<le> connections s - 1 \<and>
      \<not> ge_num (connections s - 1) (maxConnections s) \<and>
      lt_num (int (length (dropWhile (\<lambda>t. t \<le> 5 - rateInterval s) (rateMessages s))))
        (sendingRate s) \<and>
      connections s' = 1 \<and> pending s' = [] \<and> executing s' = [Queue_cb (Job 2 2)] \<and>
      rateMessages s' = [0, 6] \<and>
      trace s' = trace s @ [Immediate 1 (Success 9), Started 2 (Queue_cb (Job 2 2)) 6]"
proof -
  let ?es = "[Send (Job 1 1) 0 0, Send (Job 2 2) 0 0]"
  let ?s = "run (new_transport (Fin 1) PosInf) ?es"
  have r: "?s =
    \<lparr> maxConnections = Fin 1, connections = 1, sendingRate = PosInf, sendingRateTTL = None,
      rateInterval = 1000, rateMessages = [0], pending = [Job 2 2],
      executing = [Send_cb (Job 1 1)],
      trace = [Started 1 (Send_cb (Job 1 1)) 0, Pushed (Job 2 2)] \<rparr>"
    by (simp add: new_transport_def send_def u_checkSendingRate_def u_send_def Let_def)
  have h: "Send_cb (Job 1 1) \<in> set (executing ?s)"
    unfolding r by simp
  have c: "connections ?s = 1" "pending ?s = [Job 2 2]" "executing ?s = [Send_cb (Job 1 1)]"
    "rateMessages ?s = [0]" "rateInterval ?s = 1000" "maxConnections ?s = Fin 1"
    "sendingRate ?s = PosInf"
    unfolding r by simp_all
  note t = release_decrements_then_redrives [OF h, of "Accepted 9" 5 6, unfolded Let_def]
  from t have nn: "0 \<le> connections ?s - 1" by blast
  have g: "\<not> ge_num (connections ?s - 1) (maxConnections ?s)"
    "lt_num (int (length (dropWhile (\<lambda>t. t \<le> 5 - rateInterval ?s) (rateMessages ?s))))
        (sendingRate ?s)"
    "pending ?s \<noteq> []"
    unfolding r by simp_all
  note eff = t [THEN conjunct2, THEN conjunct2, THEN conjunct2, THEN conjunct2]
  from eff have "connections (step ?s (Done (Send_cb (Job 1 1)) (Accepted 9) 5 6)) = connections ?s \<and>
      pending ?s = hd (pending ?s) # pending (step ?s (Done (Send_cb (Job 1 1)) (Accepted 9) 5 6)) \<and>
      executing (step ?s (Done (Send_cb (Job 1 1)) (Accepted 9) 5 6)) =
        remove1 (Send_cb (Job 1 1)) (executing ?s) @ [Queue_cb (hd (pending ?s))] \<and>
      rateMessages (step ?s (Done (Send_cb (Job 1 1)) (Accepted 9) 5 6)) =
        dropWhile (\<lambda>t. t \<le> 5 - rateInterval ?s) (rateMessages ?s) @ [6] \<and>
      trace (step ?s (Done (Send_cb (Job 1 1)) (Accepted 9) 5 6)) = trace ?s @
        [Immediate (callback (job_of (Send_cb (Job 1 1)))) (callback_args (Accepted 9)),
         Started (mail (hd (pending ?s))) (Queue_cb (hd (pending ?s))) 6]"
    by (simp only: g if_False simp_thms)
  then have e: "connections (step ?s (Done (Send_cb (Job 1 1)) (Accepted 9) 5 6)) = 1"
    "pending (step ?s (Done (Send_cb (Job 1 1)) (Accepted 9) 5 6)) = []"
    "executing (step ?s (Done (Send_cb (Job 1 1)) (Accepted 9) 5 6)) = [Queue_cb (Job 2 2)]"
    "rateMessages (step ?s (Done (Send_cb (Job 1 1)) (Accepted 9) 5 6)) = [0, 6]"
    "trace (step ?s (Done (Send_cb (Job 1 1)) (Accepted 9) 5 6)) =
       trace ?s @ [Immediate 1 (Success 9), Started 2 (Queue_cb (Job 2 2)) 6]"
    unfolding c by simp_all
  from h c(1,2) nn g(1,2) e show ?thesis
    unfolding Let_def by blast
qed

text \<open>
  C8. When the message of an admitted job fails (while it is composed or when it is sent),
  the error goes unchanged to the callback of that job, \<^verbatim>\<open>_sent\<close> still runs (the
  counter goes down by one and the queue is redriven), and the time recorded at admission
  stays in the rate log: the failure path takes nothing out of the log, the redrive removes
  only entries older than the window, and the log, the counter and the queue end as they
  do after a success.
\<close>

theorem failure_releases_slot_and_keeps_rate_entry:
  assumes "cb \<in> set (executing s)"
    and "out = ComposeError err \<or> out = SendError err"
  shows "let s1 = s\<lparr>executing := remove1 cb (executing s),
                    trace := trace s @ [Immediate (callback (job_of cb)) (Failure err)],
                    connections := connections s - 1\<rparr>;
             s' = step s (Done cb out now now')
         in s' = u_checkRatedQueue now now' s1 \<and>
            rateMessages s1 = rateMessages s \<and>
            prefix (trace s @ [Immediate (callback (job_of cb)) (Failure err)]) (trace s') \<and>
            prefix (filter (\<lambda>t. now - rateInterval s < t) (rateMessages s))
              (filter (\<lambda>t. now - rateInterval s < t) (rateMessages s')) \<and>
            rateMessages s' = rateMessages (step s (Done cb (Accepted d) now now')) \<and>
            connections s' = connections (step s (Done cb (Accepted d) now now')) \<and>
            pending s' = pending (step s (Done cb (Accepted d) now now'))"
proof -
  let ?s0 = "s\<lparr>executing := remove1 cb (executing s), connections := connections s - 1\<rparr>"
  let ?s1 = "s\<lparr>executing := remove1 cb (executing s),
                    trace := trace s @ [Immediate (callback (job_of cb)) (Failure err)],
                    connections := connections s - 1\<rparr>"
  let ?s2 = "s\<lparr>executing := remove1 cb (executing s),
                    trace := trace s @ [Immediate (callback (job_of cb)) (Success d)],
                    connections := connections s - 1\<rparr>"
  from assms(2) have a: "callback_args out = Failure err" by auto
  from assms(1) a have st: "step s (Done cb out now now') = u_checkRatedQueue now now' ?s1"
    by (simp add: call_closure_def u_sent_def)
  from assms(1) have st2: "step s (Done cb (Accepted d) now now') = u_checkRatedQueue now now' ?s2"
    by (simp add: call_closure_def u_sent_def)
  have e1: "?s1 = ?s0\<lparr>trace := trace s @ [Immediate (callback (job_of cb)) (Failure err)]\<rparr>"
    and e2: "?s2 = ?s0\<lparr>trace := trace s @ [Immediate (callback (job_of cb)) (Success d)]\<rparr>"
    by simp_all
  have same: "rateMessages (u_checkRatedQueue now now' ?s1) = rateMessages (u_checkRatedQueue now now' ?s2)"
    "connections (u_checkRatedQueue now now' ?s1) = connections (u_checkRatedQueue now now' ?s2)"
    "pending (u_checkRatedQueue now now' ?s1) = pending (u_checkRatedQueue now now' ?s2)"
    unfolding e1 e2 by (simp_all only: u_checkRatedQueue_ignores_trace)
  have tr: "prefix (trace ?s1) (trace (u_checkRatedQueue now now' ?s1))"
    by (rule u_checkRatedQueue_trace_grows)
  have keep: "prefix (filter (\<lambda>t. now - rateInterval ?s1 < t) (rateMessages ?s1))
     (filter (\<lambda>t. now - rateInterval ?s1 < t) (rateMessages (u_checkRatedQueue now now' ?s1)))"
    by (rule u_checkRatedQueue_keeps_unexpired)
  from tr have tr': "prefix (trace s @ [Immediate (callback (job_of cb)) (Failure err)])
      (trace (u_checkRatedQueue now now' ?s1))"
    by simp
  from keep have keep': "prefix (filter (\<lambda>t. now - rateInterval s < t) (rateMessages s))
     (filter (\<lambda>t. now - rateInterval s < t) (rateMessages (u_checkRatedQueue now now' ?s1)))"
    by simp
  show ?thesis
    unfolding Let_def st st2 using tr' keep' same by simp
qed

theorem failure_releases_slot_and_keeps_rate_entry_witness:
  "let s = run (new_transport (Fin 1) (Fin 5)) [Send (Job 1 1) 0 0, Send (Job 2 2) 0 0];
       cb = Send_cb (Job 1 1);
       out = SendError 7;
       s1 = s\<lparr>executing := remove1 cb (executing s),
              trace := trace s @ [Immediate (callback (job_of cb)) (Failure 7)],
              connections := connections s - 1\<rparr>;
       s' = step s (Done cb out 5 6)
   in cb \<in> set (executing s) \<and> rateMessages s = [0] \<and>
      s' = u_checkRatedQueue 5 6 s1 \<and>
      rateMessages s1 = rateMessages s \<and>
      prefix (trace s @ [Immediate (callback (job_of cb)) (Failure 7)]) (trace s') \<and>
      prefix (filter (\<lambda>t. 5 - rateInterval s < t) (rateMessages s))
        (filter (\<lambda>t. 5 - rateInterval s < t) (rateMessages s')) \<and>
      rateMessages s' = [0, 6] \<and> connections s' = 1 \<and> pending s' = [] \<and>
      rateMessages s' = rateMessages (step s (Done cb (Accepted 3) 5 6)) \<and>
      connections s' = connections (step s (Done cb (Accepted 3) 5 6)) \<and>
      pending s' = pending (step s (Done cb (Accepted 3) 5 6))"
proof -
  let ?es = "[Send (Job 1 1) 0 0, Send (Job 2 2) 0 0]"
  let ?s = "run (new_transport (Fin 1) (Fin 5)) ?es"
  have r: "?s =
    \<lparr> maxConnections = Fin 1, connections = 1, sendingRate = Fin 5, sendingRateTTL = None,
      rateInterval = 1000, rateMessages = [0], pending = [Job 2 2],
      executing = [Send_cb (Job 1 1)],
      trace = [Started 1 (Send_cb (Job 1 1)) 0, Pushed (Job 2 2)] \<rparr>"
    by (simp add: new_transport_def send_def u_checkSendingRate_def u_send_def Let_def)
  have h: "Send_cb (Job 1 1) \<in> set (executing ?s)"
    unfolding r by simp
  have o: "SendError 7 = ComposeError 7 \<or> SendError 7 = SendError 7"
    by simp
  have e: "rateMessages ?s = [0]"
    "rateMessages (step ?s (Done (Send_cb (Job 1 1)) (SendError 7) 5 6)) = [0, 6]"
    "connections (step ?s (Done (Send_cb (Job 1 1)) (SendError 7) 5 6)) = 1"
    "pending (step ?s (Done (Send_cb (Job 1 1)) (SendError 7) 5 6)) = []"
    unfolding r
    by (simp_all add: call_closure_def u_sent_def u_checkRatedQueue_def u_checkSendingRate_def
        u_send_def Let_def)
  from failure_releases_slot_and_keeps_rate_entry [OF h o, of 5 6 3] h e show ?thesis
    unfolding Let_def by metis
qed

text \<open>
  C9. Every rate check first prunes the rate log: from the ordered log it removes exactly
  the times \<open>t\<close> with \<open>t \<le> now - rateInterval\<close>, which form a prefix (the oldest
  entries), keeps every newer time in place, and only then compares the length with the
  rate.
\<close>

theorem check_prunes_expired_prefix:
  assumes "sorted (rateMessages s)"
  shows "rateMessages (snd (u_checkSendingRate now s)) =
           filter (\<lambda>t. now - rateInterval s < t) (rateMessages s) \<and>
         rateMessages s =
           filter (\<lambda>t. t \<le> now - rateInterval s) (rateMessages s) @
           rateMessages (snd (u_checkSendingRate now s)) \<and>
         fst (u_checkSendingRate now s) =
           lt_num (int (length (filter (\<lambda>t. now - rateInterval s < t) (rateMessages s))))
             (sendingRate s)"
proof -
  obtain ok s1 where c: "u_checkSendingRate now s = (ok, s1)"
    by (cases "u_checkSendingRate now s")
  note p = u_checkSendingRate_props [OF c]
  let ?b = "now - rateInterval s"
  have kept: "rateMessages s1 = filter (\<lambda>t. ?b < t) (rateMessages s)"
    using assms by (simp add: p(7) sorted_dropWhile_filter)
  have "rateMessages s = takeWhile (\<lambda>t. t \<le> ?b) (rateMessages s) @ rateMessages s1"
    by (simp add: p(7))
  then have "rateMessages s = filter (\<lambda>t. t \<le> ?b) (rateMessages s) @ rateMessages s1"
    using assms by (simp add: sorted_takeWhile_filter)
  with kept p(8) c show ?thesis by simp
qed

theorem check_prunes_expired_prefix_witness:
  "let s = (new_transport PosInf (Fin 2))\<lparr>rateMessages := [0, 500, 1200]\<rparr>
   in sorted (rateMessages s) \<and>
      rateMessages (snd (u_checkSendingRate 1500 s)) = [1200] \<and>
      rateMessages (snd (u_checkSendingRate 1500 s)) =
        filter (\<lambda>t. 1500 - rateInterval s < t) (rateMessages s) \<and>
      rateMessages s =
        filter (\<lambda>t. t \<le> 1500 - rateInterval s) (rateMessages s) @
        rateMessages (snd (u_checkSendingRate 1500 s)) \<and>
      fst (u_checkSendingRate 1500 s)"
proof -
  let ?s = "(new_transport PosInf (Fin 2))\<lparr>rateMessages := [0, 500, 1200]\<rparr>"
  have h: "sorted (rateMessages ?s)"
    by (simp add: new_transport_def)
  have e: "rateMessages (snd (u_checkSendingRate 1500 ?s)) = [1200]"
    and f: "fst (u_checkSendingRate 1500 ?s)"
    by (simp_all add: new_transport_def u_checkSendingRate_def Let_def)
  from check_prunes_expired_prefix [OF h, of 1500] h e f show ?thesis
    unfolding Let_def by blast
qed

text \<open>
  C10. When an option is omitted, zero, or converts to no nonzero number, the ceiling built
  from it is \<open>Infinity\<close> and its check never refuses, whatever has happened to the
  transport: after every run \<^verbatim>\<open>connections >= maxConnections\<close> is false and the rate
  check succeeds at every time; with both ceilings unbounded every submitted job is handed
  to the executor at once and nothing is ever queued. A finite ceiling comes only from an
  option that converts to that nonzero number.
\<close>

theorem absent_option_is_unbounded:
  assumes "SESTransport conv opts = Inr s0"
  shows "(Number conv (opt_maxConnections (or_empty opts)) \<in> {Inr NaN, Inr (Fin 0)} \<longrightarrow>
            maxConnections s0 = PosInf \<and> (\<forall>n. \<not> ge_num n (maxConnections s0)) \<and>
            (\<forall>es. maxConnections (run s0 es) = PosInf \<and>
                  \<not> ge_num (connections (run s0 es)) (maxConnections (run s0 es)))) \<and>
         (Number conv (opt_sendingRate (or_empty opts)) \<in> {Inr NaN, Inr (Fin 0)} \<longrightarrow>
            sendingRate s0 = PosInf \<and> (\<forall>now. fst (u_checkSendingRate now s0)) \<and>
            (\<forall>es now. sendingRate (run s0 es) = PosInf \<and>
                  fst (u_checkSendingRate now (run s0 es)))) \<and>
         (Number conv (opt_maxConnections (or_empty opts)) \<in> {Inr NaN, Inr (Fin 0)} \<and>
          Number conv (opt_sendingRate (or_empty opts)) \<in> {Inr NaN, Inr (Fin 0)} \<longrightarrow>
            (\<forall>es. pending (run s0 es) = [] \<and> admitted (trace (run s0 es)) = submitted es)) \<and>
         (\<forall>r. maxConnections s0 = Fin r \<longrightarrow>
            r \<noteq> 0 \<and> Number conv (opt_maxConnections (or_empty opts)) = Inr (Fin r)) \<and>
         (\<forall>r. sendingRate s0 = Fin r \<longrightarrow>
            r \<noteq> 0 \<and> Number conv (opt_sendingRate (or_empty opts)) = Inr (Fin r))"
proof -
  from assms obtain mc sr where
    m: "Number conv (opt_maxConnections (or_empty opts)) = Inr mc"
    and r: "Number conv (opt_sendingRate (or_empty opts)) = Inr sr"
    and s0: "s0 = new_transport (or_Infinity mc) (or_Infinity sr)"
    by (rule SESTransport_Inr)
  from s0 have f: "maxConnections s0 = or_Infinity mc" "sendingRate s0 = or_Infinity sr"
    and i: "pending s0 = []" "trace s0 = []"
    by (simp_all add: new_transport_def)
  have chk: "fst (u_checkSendingRate now s)" if "sendingRate s = PosInf" for now s
  proof -
    obtain ok s1 where c: "u_checkSendingRate now s = (ok, s1)"
      by (cases "u_checkSendingRate now s")
    from u_checkSendingRate_props(8) [OF c] that c show ?thesis by simp
  qed
  have inf: "or_Infinity x = PosInf" if "x = NaN \<or> x = Fin 0" for x
    using that by (auto simp: or_Infinity_def)
  have fin: "x = Fin q \<and> q \<noteq> 0" if "or_Infinity x = Fin q" for x q
    using that by (cases x) (auto simp: or_Infinity_def split: if_splits)
  have a: "maxConnections s0 = PosInf \<and> (\<forall>n. \<not> ge_num n (maxConnections s0)) \<and>
            (\<forall>es. maxConnections (run s0 es) = PosInf \<and>
                  \<not> ge_num (connections (run s0 es)) (maxConnections (run s0 es)))"
    if "Number conv (opt_maxConnections (or_empty opts)) \<in> {Inr NaN, Inr (Fin 0)}"
  proof -
    from that m f(1) inf [of mc] have "maxConnections s0 = PosInf" by auto
    then show ?thesis by (simp add: maxConnections_run)
  qed
  have b: "sendingRate s0 = PosInf \<and> (\<forall>now. fst (u_checkSendingRate now s0)) \<and>
            (\<forall>es now. sendingRate (run s0 es) = PosInf \<and>
                  fst (u_checkSendingRate now (run s0 es)))"
    if "Number conv (opt_sendingRate (or_empty opts)) \<in> {Inr NaN, Inr (Fin 0)}"
  proof -
    from that r f(2) inf [of sr] have "sendingRate s0 = PosInf" by auto
    then show ?thesis by (simp add: config_run chk)
  qed
  have ab: "\<forall>es. pending (run s0 es) = [] \<and> admitted (trace (run s0 es)) = submitted es"
    if "Number conv (opt_maxConnections (or_empty opts)) \<in> {Inr NaN, Inr (Fin 0)} \<and>
        Number conv (opt_sendingRate (or_empty opts)) \<in> {Inr NaN, Inr (Fin 0)}"
  proof -
    from that a b have "maxConnections s0 = PosInf" "sendingRate s0 = PosInf" by simp_all
    from unbounded_run [OF this i(1)] i(2) show ?thesis by simp
  qed
  have c: "q \<noteq> 0 \<and> Number conv (opt_maxConnections (or_empty opts)) = Inr (Fin q)"
    if "maxConnections s0 = Fin q" for q
    using that m f(1) fin [of mc q] by simp
  have d: "q \<noteq> 0 \<and> Number conv (opt_sendingRate (or_empty opts)) = Inr (Fin q)"
    if "sendingRate s0 = Fin q" for q
    using that r f(2) fin [of sr q] by simp
  from a b ab c d show ?thesis by blast
qed

theorem absent_option_is_unbounded_witness:
  "let conv = (\<lambda>x::unit. Inr NaN);
       opts = Some \<lparr> opt_maxConnections = JNumber (Fin 0), opt_sendingRate = JOther () \<rparr>;
       s0 = new_transport PosInf PosInf;
       es = [Send (Job 1 1) 0 0, Send (Job 2 2) 0 0, Send (Job 3 3) 0 0];
       opts' = Some \<lparr> opt_maxConnections = JNumber (Fin 5), opt_sendingRate = JBool True \<rparr>;
       s0' = new_transport (Fin 5) (Fin 1)
   in SESTransport conv opts = Inr s0 \<and>
      Number conv (opt_maxConnections (or_empty opts)) \<in> {Inr NaN, Inr (Fin 0)} \<and>
      Number conv (opt_sendingRate (or_empty opts)) \<in> {Inr NaN, Inr (Fin 0)} \<and>
      maxConnections s0 = PosInf \<and> \<not> ge_num 1000000 (maxConnections s0) \<and>
      sendingRate s0 = PosInf \<and> fst (u_checkSendingRate 0 s0) \<and>
      connections (run s0 es) = 3 \<and> rateMessages (run s0 es) = [0, 0, 0] \<and>
      \<not> ge_num (connections (run s0 es)) (maxConnections (run s0 es)) \<and>
      fst (u_checkSendingRate 0 (run s0 es)) \<and>
      pending (run s0 es) = [] \<and> admitted (trace (run s0 es)) = submitted es \<and>
      SESTransport conv opts' = Inr s0' \<and>
      maxConnections s0' = Fin 5 \<and> sendingRate s0' = Fin 1 \<and>
      Number conv (opt_maxConnections (or_empty opts')) = Inr (Fin 5) \<and>
      Number conv (opt_sendingRate (or_empty opts')) = Inr (Fin 1) \<and>
      \<not> fst (u_checkSendingRate 0 (run s0' [Send (Job 1 1) 0 0])) \<and>
      SESTransport conv None = Inr s0 \<and>
      Number conv (opt_maxConnections (or_empty None)) \<in> {Inr NaN, Inr (Fin 0)}"
proof -
  let ?conv = "\<lambda>x::unit. (Inr NaN :: error + jsnum)"
  let ?opts = "Some \<lparr> opt_maxConnections = JNumber (Fin 0), opt_sendingRate = JOther () \<rparr>"
  let ?s0 = "new_transport PosInf PosInf"
  let ?es = "[Send (Job 1 1) 0 0, Send (Job 2 2) 0 0, Send (Job 3 3) 0 0]"
  let ?opts' = "Some \<lparr> opt_maxConnections = JNumber (Fin 5), opt_sendingRate = JBool True \<rparr>"
  let ?s0' = "new_transport (Fin 5) (Fin 1)"
  have c: "SESTransport ?conv ?opts = Inr ?s0"
    by (simp add: SESTransport_def or_empty_def or_Infinity_def)
  have h1: "Number ?conv (opt_maxConnections (or_empty ?opts)) \<in> {Inr NaN, Inr (Fin 0)}"
    by (simp add: or_empty_def)
  have h2: "Number ?conv (opt_sendingRate (or_empty ?opts)) \<in> {Inr NaN, Inr (Fin 0)}"
    by (simp add: or_empty_def)
  note t = absent_option_is_unbounded [OF c]
  from t h1 have a: "maxConnections ?s0 = PosInf \<and> \<not> ge_num 1000000 (maxConnections ?s0)"
    by blast
  from t h2 have b: "sendingRate ?s0 = PosInf \<and> fst (u_checkSendingRate 0 ?s0)"
    by blast
  from t h1 have a': "\<not> ge_num (connections (run ?s0 ?es)) (maxConnections (run ?s0 ?es))"
    by blast
  from t h2 have b': "fst (u_checkSendingRate 0 (run ?s0 ?es))"
    by blast
  from t h1 h2 have ab: "pending (run ?s0 ?es) = [] \<and>
      admitted (trace (run ?s0 ?es)) = submitted ?es"
    by blast
  have v: "connections (run ?s0 ?es) = 3" "rateMessages (run ?s0 ?es) = [0, 0, 0]"
    by (simp_all add: new_transport_def send_def u_checkSendingRate_def u_send_def Let_def)
  have c': "SESTransport ?conv ?opts' = Inr ?s0'"
    by (simp add: SESTransport_def or_empty_def or_Infinity_def)
  have h3: "maxConnections ?s0' = Fin 5" and h4: "sendingRate ?s0' = Fin 1"
    by (simp_all add: new_transport_def)
  note t' = absent_option_is_unbounded [OF c']
  from t' h3 have d: "Number ?conv (opt_maxConnections (or_empty ?opts')) = Inr (Fin 5)"
    by blast
  from t' h4 have e: "Number ?conv (opt_sendingRate (or_empty ?opts')) = Inr (Fin 1)"
    by blast
  have n: "\<not> fst (u_checkSendingRate 0 (run ?s0' [Send (Job 1 1) 0 0]))"
    by (simp add: new_transport_def send_def u_checkSendingRate_def u_send_def Let_def)
  have c'': "SESTransport ?conv None = Inr ?s0"
    by (simp add: SESTransport_def or_empty_def or_Infinity_def)
  have h5: "Number ?conv (opt_maxConnections (or_empty None)) \<in> {Inr NaN, Inr (Fin 0)}"
    by (simp add: or_empty_def)
  from absent_option_is_unbounded [OF c''] h5 have "maxConnections ?s0 = PosInf"
    by blast
  with a b a' b' ab v c h1 h2 c' h3 h4 d e n c'' h5 show ?thesis
    unfolding Let_def by blast
qed

end
